theory Spec2Isabelle
  imports Complex_Main "HOL-Library.Multiset" "HOL-Library.Word"
begin

section \<open>The ledger bot of \<open>dsf.py\<close>: data model\<close>

text \<open>
  Python strings are sequences of code points (slicing and \<open>startswith\<close> count code
  points), so a Python \<open>str\<close> is a list of code points here. Time stamps
  (\<open>datetime.now().isoformat()\<close>) are plain ASCII strings.
\<close>

type_synonym pystr = "nat list"

text \<open>
  Telegram's chat and user identifiers are 64-bit integers (the Bot API's \<open>Integer\<close>
  with at most 52 significant bits), the range SQLite stores, so binding one to a
  statement never overflows. The code only stores them and compares them for equality.
\<close>

type_synonym tg_id = "64 word"

text \<open>The reserved note prefix \<open>'[' U+7ED3 U+4F59 ']'\<close> of the source's SQL pattern
  \<open>LIKE '[..]%'\<close> and of \<open>d.startswith('[..]')\<close>.\<close>

definition carry_tag :: pystr where
  "carry_tag = [91, 32467, 20313, 93]"

fun startswith :: "pystr \<Rightarrow> pystr \<Rightarrow> bool" where
  "startswith s [] = True"
| "startswith [] (p # ps) = False"
| "startswith (c # cs) (p # ps) = (c = p \<and> startswith cs ps)"

text \<open>\<open>description LIKE '[..]%'\<close>: the pattern holds no ASCII letter and no \<open>_\<close>, so
  SQLite's \<open>LIKE\<close> is the prefix test.\<close>

definition like_carry :: "pystr \<Rightarrow> bool" where
  "like_carry d = startswith d carry_tag"

text \<open>
  What SQLite's driver can store of a Python \<open>str\<close>: binding a string encodes it as
  UTF-8, which raises \<open>UnicodeEncodeError\<close> (a subclass of \<open>ValueError\<close>) on a lone
  surrogate, a code point from U+D800 to U+DFFF.
\<close>

definition utf8_encodable :: "pystr \<Rightarrow> bool" where
  "utf8_encodable s \<longleftrightarrow> list_all (\<lambda>c. c < 55296 \<or> 57343 < c) s"

text \<open>The rows of the three tables of \<open>init_group_db\<close> that the ledger uses.\<close>

record cycle =
  cycle_id :: nat
  c_group_id :: tg_id
  start_time :: string
  end_time :: "string option"
  is_active :: bool

record bill =
  bill_id :: nat
  b_cycle_id :: nat
  b_group_id :: tg_id
  b_user_id :: tg_id
  amount :: int
  description :: pystr
  created_at :: string

record balance_row =
  pb_id :: nat
  pb_group_id :: tg_id
  pb_amount :: int
  pb_created_at :: string

text \<open>
  The ledger tables of one group's database file (\<open>get_db_path(group_id)\<close>). A table
  is the list of its rows in insertion order; the \<open>_seq\<close> fields are SQLite's
  \<open>AUTOINCREMENT\<close> counters (the largest key ever handed out, never reused after a
  delete).
\<close>

record database =
  cycles :: "cycle list"
  cycles_seq :: nat
  bills :: "bill list"
  bills_seq :: nat
  previous_balances :: "balance_row list"
  previous_balances_seq :: nat

definition init_group_db :: database where
  "init_group_db =
     \<lparr>cycles = [], cycles_seq = 0, bills = [], bills_seq = 0,
      previous_balances = [], previous_balances_seq = 0\<rparr>"

text \<open>A row of the table \<open>users (user_id INTEGER PRIMARY KEY, username TEXT UNIQUE)\<close>
  of the same file.\<close>

record user_row =
  u_user_id :: tg_id
  u_username :: pystr

text \<open>
  The exceptions that the modelled paths can raise. \<open>ValueError\<close> stands for the class
  that \<open>except ValueError\<close> catches, so also for its subclass \<open>UnicodeEncodeError\<close>;
  \<open>IntegrityError\<close> and \<open>OperationalError\<close> are the driver's.
\<close>

datatype py_error = ValueError | IndexError | OverflowError | OperationalError | IntegrityError

section \<open>SQLite integers\<close>

text \<open>
  SQLite stores an integer in 64 bits. Binding a Python \<open>int\<close> outside that range raises
  \<open>OverflowError\<close> in the driver, and \<open>SUM\<close> over integers raises
  \<open>OperationalError\<close> (integer overflow) as soon as a partial sum leaves the range.
\<close>

definition sqlite_int :: "int \<Rightarrow> bool" where
  "sqlite_int a \<longleftrightarrow> - (2 ^ 63) \<le> a \<and> a < 2 ^ 63"

fun sql_sum_from :: "int \<Rightarrow> int list \<Rightarrow> py_error + int" where
  "sql_sum_from acc [] = Inr acc"
| "sql_sum_from acc (v # vs) =
     (if sqlite_int (acc + v) then sql_sum_from (acc + v) vs else Inl OperationalError)"

text \<open>\<open>COALESCE(SUM(..), 0)\<close> over the non-NULL values \<open>vs\<close>, in scan order.\<close>

definition sql_sum :: "int list \<Rightarrow> py_error + int" where
  "sql_sum vs = sql_sum_from 0 vs"

text \<open>\<open>ORDER BY bill_id DESC\<close>.\<close>

definition order_by_bill_id_desc :: "bill list \<Rightarrow> bill list" where
  "order_by_bill_id_desc rows = rev (sort_key bill_id rows)"

section \<open>\<open>get_cycle_summary\<close>\<close>

record summary =
  total_deposits :: int
  deposit_count :: nat
  total_withdrawals :: int
  withdrawal_count :: nat
  previous_balance :: int
  net_balance :: int
  deposits :: "(int \<times> string) list"
  withdrawals :: "(int \<times> string) list"

text \<open>The three row classes of the summary query's \<open>CASE WHEN\<close> filters.\<close>

definition is_deposit :: "bill \<Rightarrow> bool" where
  "is_deposit b \<longleftrightarrow> amount b > 0 \<and> \<not> like_carry (description b)"

definition is_withdrawal :: "bill \<Rightarrow> bool" where
  "is_withdrawal b \<longleftrightarrow> amount b < 0 \<and> \<not> like_carry (description b)"

definition is_carry_over :: "bill \<Rightarrow> bool" where
  "is_carry_over b \<longleftrightarrow> like_carry (description b)"

text \<open>\<open>FROM bills WHERE cycle_id = ?\<close>.\<close>

definition cycle_bills :: "database \<Rightarrow> nat \<Rightarrow> bill list" where
  "cycle_bills conn cid = filter (\<lambda>b. b_cycle_id b = cid) (bills conn)"

definition get_cycle_summary :: "database \<Rightarrow> nat \<Rightarrow> py_error + summary" where
  "get_cycle_summary conn cid =
     (let rows = cycle_bills conn cid;
          dep = filter is_deposit rows;
          wd = filter is_withdrawal rows;
          car = filter is_carry_over rows
      in case sql_sum (map amount dep) of
           Inl e \<Rightarrow> Inl e
         | Inr r0 \<Rightarrow>
        (case sql_sum (map amount wd) of
           Inl e \<Rightarrow> Inl e
         | Inr r2 \<Rightarrow>
        (case sql_sum (map amount car) of
           Inl e \<Rightarrow> Inl e
         | Inr r4 \<Rightarrow>
             Inr \<lparr>total_deposits = r0,
                  deposit_count = length dep,
                  total_withdrawals = \<bar>r2\<bar>,
                  withdrawal_count = length wd,
                  previous_balance = r4,
                  net_balance = r0 - \<bar>r2\<bar> + r4,
                  deposits =
                    map (\<lambda>b. (amount b, created_at b)) (take 5 (order_by_bill_id_desc dep)),
                  withdrawals =
                    map (\<lambda>b. (amount b, created_at b)) (take 5 (order_by_bill_id_desc wd))\<rparr>)))"

text \<open>\<open>get_previous_balance\<close>: the newest row of \<open>previous_balances\<close> for the group,
  0 when there is none (\<open>int(result[0] or 0) if result else 0\<close>).\<close>

definition get_previous_balance :: "database \<Rightarrow> tg_id \<Rightarrow> int" where
  "get_previous_balance conn gid =
     (case rev (sort_key pb_id (filter (\<lambda>p. pb_group_id p = gid) (previous_balances conn))) of
        [] \<Rightarrow> 0
      | p # _ \<Rightarrow> pb_amount p)"

section \<open>Process state and the active-cycle cache\<close>

text \<open>
  What one group's commands read and write: the ledger tables of the group's database
  file, the entry \<open>active_cycle_<group_id>\<close> of \<open>context.bot_data\<close>, and the users
  table of the file. Other groups have their own file and their own cache key, so
  their commands never touch this state. The file's operators table is read by
  \<open>is_authorized_user\<close> only, whose value is an input below.
\<close>

record group_state =
  db :: database
  bot_data :: "nat option"
  users :: "user_row list"

text \<open>The state after the first \<open>init_group_db\<close> of a group: every table exists and is
  empty. Each later call finds the tables (\<open>CREATE TABLE IF NOT EXISTS\<close>) and changes
  nothing.\<close>

definition init_state :: group_state where
  "init_state = \<lparr>db = init_group_db, bot_data = None, users = []\<rparr>"

text \<open>Python truthiness of a cycle id that may be \<open>None\<close>: \<open>if cycle_id\<close>.\<close>

fun truthy :: "nat option \<Rightarrow> bool" where
  "truthy None = False"
| "truthy (Some c) = (c \<noteq> 0)"

text \<open>\<open>SELECT cycle_id FROM cycles WHERE group_id = ? AND is_active = TRUE\<close>.\<close>

definition active_cycles :: "database \<Rightarrow> tg_id \<Rightarrow> cycle list" where
  "active_cycles conn gid = filter (\<lambda>c. c_group_id c = gid \<and> is_active c) (cycles conn)"

definition get_active_cycle :: "tg_id \<Rightarrow> group_state \<Rightarrow> nat option \<times> group_state" where
  "get_active_cycle gid s =
     (case bot_data s of
        Some c \<Rightarrow> (Some c, s)
      | None \<Rightarrow>
          (case active_cycles (db s) gid of
             [] \<Rightarrow> (None, s)
           | c # _ \<Rightarrow>
               (Some (cycle_id c),
                if cycle_id c \<noteq> 0 then s\<lparr>bot_data := Some (cycle_id c)\<rparr> else s)))"

section \<open>Inputs of a handler\<close>

text \<open>
  The statements of the close transaction; \<open>storage_fault\<close> says which of them the
  storage layer fails (raising inside the handler) during this command.
\<close>

datatype close_step = Begin_transaction | Update_cycles | Delete_previous | Insert_previous | Commit

text \<open>A Telegram user as \<open>record_user\<close> reads it: \<open>user.id\<close> and \<open>user.username\<close>
  (\<open>None\<close> for a user without one).\<close>

record tg_user =
  user_id :: tg_id
  username :: "pystr option"

text \<open>
  What a handler reads from the incoming update: the acting user
  (\<open>update.effective_user\<close>), the value of \<open>is_authorized_user\<close> (an administrator
  lookup and the operators table, both outside the ledger), the values of successive
  \<open>datetime.now().isoformat()\<close> calls, and the storage faults met while closing.
\<close>

record update = tg_user +
  authorized :: bool
  clock :: "nat \<Rightarrow> string"
  storage_fault :: "close_step \<Rightarrow> bool"

text \<open>
  The ledger commands of \<open>handle_command\<close>, after \<open>text.split()\<close>. For an entry
  command (the branch \<open>re.match(r'^[+-]\d+', cmd)\<close>) the first field is the value of
  \<open>int(cmd)\<close>, \<open>None\<close> when it raises \<open>ValueError\<close>, and the second is \<open>args\<close>. For the
  carry-over command the first field is \<open>args\<close> and the second the value of
  \<open>int(args[0])\<close> when \<open>args\<close> is not empty (\<open>None\<close>: \<open>ValueError\<close>).
  \<open>Other_command\<close> is any other word of the dispatcher (the two operator commands,
  the operator list, help): these branches touch no ledger table and not the cache;
  the set and remove branches call \<open>record_user(target_user)\<close> once they have
  determined the target, which is the argument (\<open>None\<close> when the branch returns before
  that call, and for the other words).
\<close>

datatype command =
    Open_cycle
  | Close_cycle
  | Entry "int option" "pystr list"
  | Carry_over "pystr list" "int option"
  | Undo
  | Other_command "tg_user option"

text \<open>The two ledger callbacks of \<open>button_callback\<close>, with their parsed data fields:
  \<open>Details cycle_id page\<close> and \<open>Import_balance previous_balance\<close>. Cycle ids are
  positive in the data of the bot's own buttons.\<close>

datatype callback =
    Details nat int
  | Import_balance int

record details =
  d_summary :: summary
  total_items :: nat
  balance_count :: nat
  page_bills :: "(int \<times> pystr \<times> string) list"
  total_pages :: int

text \<open>
  What the handler answers. The constructors named as in the specification stand for the
  source's messages: \<open>AlreadyActive\<close> (an active cycle exists, close it first),
  \<open>NoActiveCycle\<close>, \<open>InvalidAmount\<close> (amount format error), \<open>AlreadyImported\<close>
  (carry-over already recorded) and \<open>EmptyLedger\<close> (nothing to undo). \<open>Uncaught e\<close>
  is an exception that leaves the handler and reaches \<open>error_handler\<close>, which
  answers the generic internal-error message; \<open>Details_error e\<close> is an exception the
  details branch catches and logs, rendering nothing. \<open>Other_reply\<close> is what a branch
  outside the ledger answers.
\<close>

datatype reply =
    No_reply
  | No_permission
  | AlreadyActive
  | Cycle_opened "int option"
  | NoActiveCycle
  | Close_failed
  | Cycle_closed summary
  | InvalidAmount
  | Entry_added summary
  | Carry_usage
  | AlreadyImported
  | Carry_recorded summary
  | EmptyLedger
  | Undone bill summary
  | Details_page details
  | Details_error py_error
  | Import_failed py_error
  | Imported int summary
  | Other_reply
  | Uncaught py_error

section \<open>Statements on the tables\<close>

text \<open>
  \<open>INSERT INTO bills (cycle_id, group_id, user_id, amount, description, created_at)
  VALUES (?, ?, ?, ?, ?, ?)\<close>. The driver binds the parameters in order and raises at the
  first it cannot store: \<open>OverflowError\<close> for an amount that is no 64-bit integer, then
  \<open>UnicodeEncodeError\<close>, a \<open>ValueError\<close>, for a description that holds a lone
  surrogate. The ids are 64-bit and the time stamp is ASCII.
\<close>

definition insert_bill ::
  "database \<Rightarrow> nat \<Rightarrow> tg_id \<Rightarrow> tg_id \<Rightarrow> int \<Rightarrow> pystr \<Rightarrow> string \<Rightarrow> py_error + database" where
  "insert_bill conn cid gid uid amt descr t =
     (if \<not> sqlite_int amt then Inl OverflowError
      else if \<not> utf8_encodable descr then Inl ValueError
      else Inr (conn\<lparr>bills := bills conn @
                  [\<lparr>bill_id = Suc (bills_seq conn), b_cycle_id = cid, b_group_id = gid,
                    b_user_id = uid, amount = amt, description = descr, created_at = t\<rparr>],
                bills_seq := Suc (bills_seq conn)\<rparr>))"

text \<open>\<open>" ".join(args)\<close>.\<close>

fun join_space :: "pystr list \<Rightarrow> pystr" where
  "join_space [] = []"
| "join_space [a] = a"
| "join_space (a # b # r) = a @ 32 # join_space (b # r)"

text \<open>\<open>" ".join(args)[:255] or " "\<close>.\<close>

definition entry_description :: "pystr list \<Rightarrow> pystr" where
  "entry_description args =
     (let d = take 255 (join_space args) in if d = [] then [32] else d)"

text \<open>The default note of the carry-over command (four code points) and the note of
  the import button.\<close>

definition default_carry_note :: pystr where
  "default_carry_note = [19978, 26399, 32467, 20313]"

definition auto_import_description :: pystr where
  "auto_import_description = carry_tag @ [32, 33258, 21160, 23548, 20837]"

text \<open>\<open>f"[..] {' '.join(args[1:]) or default}"\<close>.\<close>

definition carry_description :: "pystr list \<Rightarrow> pystr" where
  "carry_description rest =
     carry_tag @ 32 # (let n = join_space rest in if n = [] then default_carry_note else n)"

text \<open>\<open>SELECT 1 FROM bills WHERE cycle_id = ? AND description LIKE '[..]%'\<close> returns a row.\<close>

definition carry_exists :: "database \<Rightarrow> nat \<Rightarrow> bool" where
  "carry_exists conn cid \<longleftrightarrow> filter is_carry_over (cycle_bills conn cid) \<noteq> []"

text \<open>\<open>LIMIT n OFFSET k\<close>; SQLite reads a negative offset as 0.\<close>

definition sql_limit_offset :: "nat \<Rightarrow> int \<Rightarrow> 'a list \<Rightarrow> 'a list" where
  "sql_limit_offset n k rows = take n (drop (nat k) rows)"

section \<open>\<open>handle_command\<close>\<close>

subsection \<open>The open branch\<close>

text \<open>
  Under the group lock: the permission check, the active-cycle check, then in one
  commit \<open>UPDATE cycles SET is_active = FALSE WHERE group_id = ?\<close> and the insert of
  the new active cycle; the cache entry is dropped and the stored balance is read for
  the import offer (\<open>Some\<close> when it is not 0).
\<close>

definition open_cycle :: "tg_id \<Rightarrow> update \<Rightarrow> group_state \<Rightarrow> reply \<times> group_state" where
  "open_cycle gid u s =
     (if \<not> authorized u then (No_permission, s)
      else case get_active_cycle gid s of (r, s1) \<Rightarrow>
        if truthy r then (AlreadyActive, s1)
        else
          let conn = db s1;
              closed = map (\<lambda>c. if c_group_id c = gid then c\<lparr>is_active := False\<rparr> else c)
                         (cycles conn);
              conn1 = conn\<lparr>cycles := closed @
                         [\<lparr>cycle_id = Suc (cycles_seq conn), c_group_id = gid,
                           start_time = clock u 0, end_time = None, is_active = True\<rparr>],
                       cycles_seq := Suc (cycles_seq conn)\<rparr>;
              previous = get_previous_balance conn1 gid
          in (Cycle_opened (if previous \<noteq> 0 then Some previous else None),
              s1\<lparr>db := conn1, bot_data := None\<rparr>))"

subsection \<open>The close branch\<close>

text \<open>\<open>INSERT INTO previous_balances (group_id, amount, created_at) VALUES (?, ?, ?)\<close>.\<close>

definition insert_previous_balance :: "database \<Rightarrow> tg_id \<Rightarrow> int \<Rightarrow> string \<Rightarrow> py_error + database" where
  "insert_previous_balance conn gid amt t =
     (if \<not> sqlite_int amt then Inl OverflowError
      else Inr (conn\<lparr>previous_balances := previous_balances conn @
                  [\<lparr>pb_id = Suc (previous_balances_seq conn), pb_group_id = gid,
                    pb_amount = amt, pb_created_at = t\<rparr>],
                previous_balances_seq := Suc (previous_balances_seq conn)\<rparr>))"

text \<open>
  The body of the \<open>try\<close>: the update of the cycle, the delete of the group's stored
  balances, the insert of the new one when the net balance is not 0, and the commit.
  \<open>Inl\<close> is the exception that reaches the \<open>except\<close> clause.
\<close>

definition close_transaction ::
  "update \<Rightarrow> tg_id \<Rightarrow> nat \<Rightarrow> int \<Rightarrow> database \<Rightarrow> py_error + database" where
  "close_transaction u gid cid net conn =
     (if storage_fault u Update_cycles then Inl OperationalError
      else
        let c1 = conn\<lparr>cycles :=
                   map (\<lambda>c. if cycle_id c = cid
                             then c\<lparr>is_active := False, end_time := Some (clock u 0)\<rparr> else c)
                     (cycles conn)\<rparr>
        in if storage_fault u Delete_previous then Inl OperationalError
        else
          let c2 = c1\<lparr>previous_balances :=
                     filter (\<lambda>p. pb_group_id p \<noteq> gid) (previous_balances c1)\<rparr>
          in case (if net \<noteq> 0
                   then (if storage_fault u Insert_previous then Inl OperationalError
                         else insert_previous_balance c2 gid net (clock u 1))
                   else Inr c2) of
               Inl e \<Rightarrow> Inl e
             | Inr c3 \<Rightarrow> if storage_fault u Commit then Inl OperationalError else Inr c3)"

text \<open>
  The summary is computed and the transaction begun before the \<open>try\<close>, so a failure
  there leaves the handler uncaught. A failure inside the \<open>try\<close> is rolled back (the
  database stays as it was when the transaction began) and answered with the failure
  message; the handler returns before the cache entry is dropped.
\<close>

definition close_cycle :: "tg_id \<Rightarrow> update \<Rightarrow> group_state \<Rightarrow> reply \<times> group_state" where
  "close_cycle gid u s =
     (if \<not> authorized u then (No_permission, s)
      else case get_active_cycle gid s of (r, s1) \<Rightarrow>
        (case r of
           None \<Rightarrow> (NoActiveCycle, s1)
         | Some cid \<Rightarrow>
             if cid = 0 then (NoActiveCycle, s1)
             else
               (case get_cycle_summary (db s1) cid of
                  Inl e \<Rightarrow> (Uncaught e, s1)
                | Inr sm \<Rightarrow>
                    if storage_fault u Begin_transaction then (Uncaught OperationalError, s1)
                    else
                      (case close_transaction u gid cid (net_balance sm) (db s1) of
                         Inl e \<Rightarrow> (Close_failed, s1)
                       | Inr conn1 \<Rightarrow> (Cycle_closed sm, s1\<lparr>db := conn1, bot_data := None\<rparr>)))))"

subsection \<open>The entry branch\<close>

text \<open>
  \<open>int(cmd)\<close>, the insert and the summary are inside one \<open>try\<close> whose
  \<open>except ValueError\<close> answers the amount-format message: so does a \<open>ValueError\<close> of
  \<open>int(cmd)\<close> and one raised by the insert. Any other exception leaves the handler.
  Nothing is committed unless the summary has been computed.
\<close>

definition entry_except :: "py_error \<Rightarrow> reply" where
  "entry_except e = (if e = ValueError then InvalidAmount else Uncaught e)"

definition add_entry ::
  "tg_id \<Rightarrow> update \<Rightarrow> int option \<Rightarrow> pystr list \<Rightarrow> group_state \<Rightarrow> reply \<times> group_state" where
  "add_entry gid u parsed args s =
     (if \<not> authorized u then (No_reply, s)
      else case get_active_cycle gid s of (r, s1) \<Rightarrow>
        (case r of
           None \<Rightarrow> (NoActiveCycle, s1)
         | Some cid \<Rightarrow>
             if cid = 0 then (NoActiveCycle, s1)
             else
               (case parsed of
                  None \<Rightarrow> (InvalidAmount, s1)
                | Some amt \<Rightarrow>
                    (case insert_bill (db s1) cid gid (user_id u) amt
                            (entry_description args) (clock u 0) of
                       Inl e \<Rightarrow> (entry_except e, s1)
                     | Inr conn1 \<Rightarrow>
                         (case get_cycle_summary conn1 cid of
                            Inl e \<Rightarrow> (entry_except e, s1)
                          | Inr sm \<Rightarrow> (Entry_added sm, s1\<lparr>db := conn1\<rparr>))))))"

subsection \<open>The carry-over branch\<close>

text \<open>
  The body is one \<open>try\<close> with \<open>except (ValueError, IndexError)\<close>, which answers the
  usage message: for an empty \<open>args\<close>, for an \<open>int(args[0])\<close> that raises, and for a
  \<open>ValueError\<close> of the insert.
\<close>

definition carry_except :: "py_error \<Rightarrow> reply" where
  "carry_except e = (if e = ValueError \<or> e = IndexError then Carry_usage else Uncaught e)"

definition record_carry_over ::
  "tg_id \<Rightarrow> update \<Rightarrow> pystr list \<Rightarrow> int option \<Rightarrow> group_state \<Rightarrow> reply \<times> group_state" where
  "record_carry_over gid u args parsed s =
     (if \<not> authorized u then (No_reply, s)
      else case get_active_cycle gid s of (r, s1) \<Rightarrow>
        (case r of
           None \<Rightarrow> (NoActiveCycle, s1)
         | Some cid \<Rightarrow>
             if cid = 0 then (NoActiveCycle, s1)
             else
               (case args of
                  [] \<Rightarrow> (carry_except IndexError, s1)
                | a # rest \<Rightarrow>
                    (case parsed of
                       None \<Rightarrow> (carry_except ValueError, s1)
                     | Some amt \<Rightarrow>
                         if carry_exists (db s1) cid then (AlreadyImported, s1)
                         else
                           (case insert_bill (db s1) cid gid (user_id u) amt
                                   (carry_description rest) (clock u 0) of
                              Inl e \<Rightarrow> (carry_except e, s1)
                            | Inr conn1 \<Rightarrow>
                                (case get_cycle_summary conn1 cid of
                                   Inl e \<Rightarrow> (carry_except e, s1)
                                 | Inr sm \<Rightarrow> (Carry_recorded sm, s1\<lparr>db := conn1\<rparr>)))))))"

subsection \<open>The undo branch\<close>

text \<open>\<open>SELECT .. FROM bills WHERE cycle_id = ? ORDER BY bill_id DESC LIMIT 1\<close>, then
  \<open>DELETE FROM bills WHERE bill_id = ?\<close>.\<close>

definition undo_last :: "tg_id \<Rightarrow> update \<Rightarrow> group_state \<Rightarrow> reply \<times> group_state" where
  "undo_last gid u s =
     (if \<not> authorized u then (No_reply, s)
      else case get_active_cycle gid s of (r, s1) \<Rightarrow>
        (case r of
           None \<Rightarrow> (NoActiveCycle, s1)
         | Some cid \<Rightarrow>
             if cid = 0 then (NoActiveCycle, s1)
             else
               (case take 1 (order_by_bill_id_desc (cycle_bills (db s1) cid)) of
                  [] \<Rightarrow> (EmptyLedger, s1)
                | last_bill # _ \<Rightarrow>
                    let conn1 = (db s1)\<lparr>bills :=
                                  filter (\<lambda>b. bill_id b \<noteq> bill_id last_bill) (bills (db s1))\<rparr>
                    in (case get_cycle_summary conn1 cid of
                          Inl e \<Rightarrow> (Uncaught e, s1)
                        | Inr sm \<Rightarrow> (Undone last_bill sm, s1\<lparr>db := conn1\<rparr>)))))"

subsection \<open>\<open>record_user\<close>\<close>

text \<open>
  \<open>record_user\<close> returns at once for a user without a username (\<open>None\<close> or empty).
  Otherwise it runs \<open>INSERT INTO users (user_id, username) VALUES (?, ?) ON
  CONFLICT(user_id) DO UPDATE SET username = excluded.username\<close> with the name
  \<open>'@' + username\<close> and commits. Binding a name with a lone surrogate raises
  \<open>UnicodeEncodeError\<close>. The upsert covers a conflict on \<open>user_id\<close> only: when the
  name is stored under another id, the insert (for a new id) or the update (for a
  known id) violates \<open>username UNIQUE\<close> and raises \<open>IntegrityError\<close>; nothing is
  written then.
\<close>

definition record_user :: "'a tg_user_scheme \<Rightarrow> group_state \<Rightarrow> py_error + group_state" where
  "record_user user s =
     (case username user of
        None \<Rightarrow> Inr s
      | Some n \<Rightarrow>
          if n = [] then Inr s
          else
            let name = 64 # n in
            if \<not> utf8_encodable name then Inl ValueError
            else if list_ex (\<lambda>r. u_username r = name \<and> u_user_id r \<noteq> user_id user) (users s)
              then Inl IntegrityError
            else if list_ex (\<lambda>r. u_user_id r = user_id user) (users s)
              then Inr (s\<lparr>users :=
                          map (\<lambda>r. if u_user_id r = user_id user then r\<lparr>u_username := name\<rparr> else r)
                            (users s)\<rparr>)
            else Inr (s\<lparr>users := users s @ [\<lparr>u_user_id = user_id user, u_username = name\<rparr>]\<rparr>))"

subsection \<open>Dispatch on the command word\<close>

text \<open>The \<open>if\<close>/\<open>elif\<close> chain on \<open>cmd\<close>.\<close>

fun command_branch :: "tg_id \<Rightarrow> update \<Rightarrow> command \<Rightarrow> group_state \<Rightarrow> reply \<times> group_state" where
  "command_branch gid u Open_cycle s = open_cycle gid u s"
| "command_branch gid u Close_cycle s = close_cycle gid u s"
| "command_branch gid u (Entry parsed args) s = add_entry gid u parsed args s"
| "command_branch gid u (Carry_over args parsed) s = record_carry_over gid u args parsed s"
| "command_branch gid u Undo s = undo_last gid u s"
| "command_branch gid u (Other_command None) s = (Other_reply, s)"
| "command_branch gid u (Other_command (Some target_user)) s =
     (case record_user target_user s of
        Inl e \<Rightarrow> (Uncaught e, s)
      | Inr s1 \<Rightarrow> (Other_reply, s1))"

text \<open>
  \<open>handle_command\<close>: before the dispatch it calls \<open>init_group_db\<close>, which finds the
  tables and changes nothing, and \<open>record_user(update.effective_user, group_id)\<close>,
  outside any \<open>try\<close>: an exception of \<open>record_user\<close> leaves the handler before any
  branch runs.
\<close>

definition handle_command :: "tg_id \<Rightarrow> update \<Rightarrow> command \<Rightarrow> group_state \<Rightarrow> reply \<times> group_state" where
  "handle_command gid u cmd s =
     (case record_user u s of
        Inl e \<Rightarrow> (Uncaught e, s)
      | Inr s0 \<Rightarrow> command_branch gid u cmd s0)"

section \<open>\<open>button_callback\<close>\<close>

text \<open>
  The details branch: the summary, the two counts, the page of bills (newest first,
  ten per page) and \<open>math.ceil(total_items / items_per_page) if total_items > 0 else 1\<close>.
  The cycle id and \<open>offset = (page - 1) * items_per_page\<close> are bound as parameters:
  the driver raises \<open>OverflowError\<close> when one is no 64-bit integer. The whole branch
  is inside \<open>try\<close> / \<open>except Exception\<close>, which logs the exception and renders
  nothing. The branch takes no lock and writes nothing.
\<close>

definition items_per_page :: nat where
  "items_per_page = 10"

definition details_page :: "database \<Rightarrow> nat \<Rightarrow> int \<Rightarrow> py_error + details" where
  "details_page conn cid page =
     (if \<not> sqlite_int (int cid) then Inl OverflowError
      else case get_cycle_summary conn cid of
        Inl e \<Rightarrow> Inl e
      | Inr sm \<Rightarrow>
          let n = length (cycle_bills conn cid);
              offset = (page - 1) * int items_per_page
          in if \<not> sqlite_int offset then Inl OverflowError
             else Inr \<lparr>d_summary = sm,
                  total_items = n,
                  balance_count = length (filter is_carry_over (cycle_bills conn cid)),
                  page_bills =
                    map (\<lambda>b. (amount b, description b, created_at b))
                      (sql_limit_offset items_per_page offset
                         (order_by_bill_id_desc (cycle_bills conn cid))),
                  total_pages =
                    (if n > 0 then \<lceil>real n / real items_per_page\<rceil> else 1)\<rparr>)"

text \<open>The import branch; every exception is caught and answered with the failure
  message.\<close>

definition import_balance :: "tg_id \<Rightarrow> update \<Rightarrow> int \<Rightarrow> group_state \<Rightarrow> reply \<times> group_state" where
  "import_balance gid u amt s =
     (if \<not> authorized u then (No_reply, s)
      else case get_active_cycle gid s of (r, s1) \<Rightarrow>
        (case r of
           None \<Rightarrow> (NoActiveCycle, s1)
         | Some cid \<Rightarrow>
             if cid = 0 then (NoActiveCycle, s1)
             else if carry_exists (db s1) cid then (AlreadyImported, s1)
             else
               (case insert_bill (db s1) cid gid (user_id u) amt
                       auto_import_description (clock u 0) of
                  Inl e \<Rightarrow> (Import_failed e, s1)
                | Inr conn1 \<Rightarrow>
                    (case get_cycle_summary conn1 cid of
                       Inl e \<Rightarrow> (Import_failed e, s1)
                     | Inr sm \<Rightarrow> (Imported amt sm, s1\<lparr>db := conn1\<rparr>)))))"

fun button_callback :: "tg_id \<Rightarrow> update \<Rightarrow> callback \<Rightarrow> group_state \<Rightarrow> reply \<times> group_state" where
  "button_callback gid u (Details cid page) s =
     (case details_page (db s) cid page of
        Inl e \<Rightarrow> (Details_error e, s)
      | Inr d \<Rightarrow> (Details_page d, s))"
| "button_callback gid u (Import_balance amt) s = import_balance gid u amt s"

section \<open>Runs of one group\<close>

datatype event = Command update command | Callback update callback

fun step :: "tg_id \<Rightarrow> event \<Rightarrow> group_state \<Rightarrow> group_state" where
  "step gid (Command u c) s = snd (handle_command gid u c s)"
| "step gid (Callback u c) s = snd (button_callback gid u c s)"

fun run :: "tg_id \<Rightarrow> event list \<Rightarrow> group_state \<Rightarrow> group_state" where
  "run gid [] s = s"
| "run gid (e # es) s = run gid es (step gid e s)"

section \<open>The quantities the specification speaks of\<close>

text \<open>
  The sums the specification's net-balance formula names, over the entries of a cycle:
  ordinary deposits, ordinary withdrawals (as magnitudes) and entries with the reserved
  prefix. \<open>entries\<close> is what an entry contributes to a summary, without its key and time
  stamp; two ledgers hold the same entries when these lists are equal as multisets.
\<close>

definition sum_ordinary_deposits :: "database \<Rightarrow> nat \<Rightarrow> int" where
  "sum_ordinary_deposits conn cid = (\<Sum>b\<leftarrow>filter is_deposit (cycle_bills conn cid). amount b)"

definition sum_ordinary_withdrawals :: "database \<Rightarrow> nat \<Rightarrow> int" where
  "sum_ordinary_withdrawals conn cid =
     (\<Sum>b\<leftarrow>filter is_withdrawal (cycle_bills conn cid). - amount b)"

definition sum_carry_over :: "database \<Rightarrow> nat \<Rightarrow> int" where
  "sum_carry_over conn cid = (\<Sum>b\<leftarrow>filter is_carry_over (cycle_bills conn cid). amount b)"

definition entries :: "database \<Rightarrow> nat \<Rightarrow> (int \<times> pystr) list" where
  "entries conn cid = map (\<lambda>b. (amount b, description b)) (cycle_bills conn cid)"

text \<open>The net balance as the specification's invariant I4 words it: the three sums and,
  on top, the group's stored carried balance.\<close>

definition spec_net_balance :: "database \<Rightarrow> tg_id \<Rightarrow> nat \<Rightarrow> int" where
  "spec_net_balance conn gid cid =
     sum_ordinary_deposits conn cid - sum_ordinary_withdrawals conn cid
       + sum_carry_over conn cid + get_previous_balance conn gid"

section \<open>Concrete runs\<close>

text \<open>An authorized operator, \<open>@op\<close>, whose commands meet no storage fault.\<close>

definition operator :: update where
  "operator =
     \<lparr>user_id = 42, username = Some [111, 112], authorized = True, clock = (\<lambda>_. ''2025-01-01T09:00:00''),
      storage_fault = (\<lambda>_. False)\<rparr>"

text \<open>Group 7 after: open, \<open>+900\<close>, close (900 is carried), open, \<open>+100\<close>.\<close>

definition carried_state :: group_state where
  "carried_state =
     run 7 [Command operator Open_cycle, Command operator (Entry (Some 900) []),
            Command operator Close_cycle, Command operator Open_cycle,
            Command operator (Entry (Some 100) [])] init_state"

text \<open>Two ledgers with the same three entries of cycle 1, entered in different orders.\<close>

definition ledger_a :: group_state where
  "ledger_a =
     run 7 [Command operator Open_cycle, Command operator (Entry (Some 1000) []),
            Command operator (Entry (Some (- 300)) []),
            Command operator (Carry_over [[43, 50, 48, 48]] (Some 200))] init_state"

definition ledger_b :: group_state where
  "ledger_b =
     run 7 [Command operator Open_cycle,
            Command operator (Carry_over [[43, 50, 48, 48]] (Some 200)),
            Command operator (Entry (Some (- 300)) []),
            Command operator (Entry (Some 1000) [])] init_state"

text \<open>Another authorized user, who by now holds the username \<open>@op\<close>: once the operator
  has been recorded, \<open>record_user\<close> finds the name stored under the id 42.\<close>

definition newcomer :: update where
  "newcomer = operator\<lparr>user_id := 43\<rparr>"

section \<open>Invariants of a group's state\<close>

text \<open>The number of cycles of the group with \<open>is_active = TRUE\<close>.\<close>

definition active_count :: "database \<Rightarrow> tg_id \<Rightarrow> nat" where
  "active_count conn gid = length (active_cycles conn gid)"

text \<open>Keys come from \<open>AUTOINCREMENT\<close>, so no cycle has the key 0 and the cache never
  holds 0: a cached or stored cycle id is truthy in Python.\<close>

definition ids_positive :: "group_state \<Rightarrow> bool" where
  "ids_positive s \<longleftrightarrow>
     list_all (\<lambda>c. cycle_id c \<noteq> 0) (cycles (db s)) \<and> bot_data s \<noteq> Some 0"

text \<open>The invariant of the cycle state machine.\<close>

definition inv_cycles :: "tg_id \<Rightarrow> group_state \<Rightarrow> bool" where
  "inv_cycles gid s \<longleftrightarrow> active_count (db s) gid \<le> 1 \<and> ids_positive s"

text \<open>A cached cycle id is the id of an active cycle of the group.\<close>

definition cache_coherent :: "tg_id \<Rightarrow> group_state \<Rightarrow> bool" where
  "cache_coherent gid s \<longleftrightarrow>
     (case bot_data s of
        None \<Rightarrow> True
      | Some c \<Rightarrow> c \<in> cycle_id ` set (active_cycles (db s) gid))"

text \<open>The bills table is kept in key order and no key exceeds the counter.\<close>

definition bills_wf :: "database \<Rightarrow> bool" where
  "bills_wf conn \<longleftrightarrow>
     sorted_wrt (<) (map bill_id (bills conn))
     \<and> list_all (\<lambda>b. bill_id b \<le> bills_seq conn) (bills conn)"

text \<open>Every committed change of the bills is followed by a computed summary of its
  cycle, so the summary of every cycle can be computed.\<close>

definition summaries_ok :: "database \<Rightarrow> bool" where
  "summaries_ok conn \<longleftrightarrow> (\<forall>cid. \<exists>sm. get_cycle_summary conn cid = Inr sm)"

text \<open>What holds of a group's state after every run from the fresh database.\<close>

definition wf_state :: "tg_id \<Rightarrow> group_state \<Rightarrow> bool" where
  "wf_state gid s \<longleftrightarrow>
     inv_cycles gid s \<and> cache_coherent gid s \<and> bills_wf (db s) \<and> summaries_ok (db s)"

text \<open>What a handler other than open and close does to the cycles and the cache: the
  cycles stay, and the cache is at most filled by the active-cycle lookup.\<close>

definition keeps_cycles :: "tg_id \<Rightarrow> group_state \<Rightarrow> group_state \<Rightarrow> bool" where
  "keeps_cycles gid s s' \<longleftrightarrow>
     cycles (db s') = cycles (db s)
     \<and> (bot_data s' = bot_data s \<or> bot_data s' = bot_data (snd (get_active_cycle gid s)))"

section \<open>Failing steps of a close\<close>

text \<open>
  When a statement of the close transaction fails: the storage layer fails it, or, for
  the insert of the new carried balance (run only when the net balance is not 0), the
  net balance is no 64-bit integer.
\<close>

fun close_step_fails :: "update \<Rightarrow> int \<Rightarrow> close_step \<Rightarrow> bool" where
  "close_step_fails u net Insert_previous =
     (net \<noteq> 0 \<and> (storage_fault u Insert_previous \<or> \<not> sqlite_int net))"
| "close_step_fails u net st = storage_fault u st"

text \<open>The operator, meeting a storage fault at the delete of the stored balances.\<close>

definition faulty_operator :: update where
  "faulty_operator = operator\<lparr>storage_fault := (\<lambda>st. st = Delete_previous)\<rparr>"

text \<open>Group 7 after: open, a deposit of \<open>2 ^ 63 - 1\<close> and a carry-over of the same
  amount. Each sum of the summary fits 64 bits; the net balance does not.\<close>

definition overflow_state :: group_state where
  "overflow_state =
     run 7 [Command operator Open_cycle,
            Command operator (Entry (Some 9223372036854775807) []),
            Command operator (Carry_over [[43, 49]] (Some 9223372036854775807))] init_state"

text \<open>Group 7 with 900 carried and an active cycle whose entries cancel: \<open>+100\<close>,
  \<open>-100\<close>.\<close>

definition settled_state :: group_state where
  "settled_state = run 7 [Command operator (Entry (Some (- 100)) [])] carried_state"

text \<open>Group 7 right after its first open.\<close>

definition opened_state :: group_state where
  "opened_state = run 7 [Command operator Open_cycle] init_state"

text \<open>Group 7 after: open, then two entry commands whose notes begin with the reserved
  prefix (\<open>+100 [..]a\<close> and \<open>+50 [..]b\<close>).\<close>

definition two_tagged_state :: group_state where
  "two_tagged_state =
     run 7 [Command operator Open_cycle,
            Command operator (Entry (Some 100) [[91, 32467, 20313, 93, 97]]),
            Command operator (Entry (Some 50) [[91, 32467, 20313, 93, 98]])] init_state"

section \<open>Undo after an insertion\<close>

text \<open>
  What the specification asks of an undo by \<open>u'\<close> in the state \<open>s1\<close> reached from \<open>s\<close>
  by one successful insertion into the active cycle: the undo answers the inserted
  entry together with the summary the cycle had in \<open>s\<close>, and the tables hold again
  what they held in \<open>s\<close>.
\<close>

definition undo_restores :: "tg_id \<Rightarrow> update \<Rightarrow> group_state \<Rightarrow> group_state \<Rightarrow> bool" where
  "undo_restores gid u' s s1 \<longleftrightarrow>
     (\<exists>c b sm0 s2.
        active_cycles (db s) gid = [c]
        \<and> cycle_bills (db s1) (cycle_id c) = cycle_bills (db s) (cycle_id c) @ [b]
        \<and> get_cycle_summary (db s) (cycle_id c) = Inr sm0
        \<and> handle_command gid u' Undo s1 = (Undone b sm0, s2)
        \<and> bills (db s2) = bills (db s) \<and> cycles (db s2) = cycles (db s)
        \<and> previous_balances (db s2) = previous_balances (db s))"

section \<open>A ledger with 25 entries\<close>

text \<open>A database whose cycle 1 holds the bills 1 to 25, the bill \<open>i\<close> of amount \<open>i\<close>.\<close>

definition bill_no :: "nat \<Rightarrow> bill" where
  "bill_no i =
     \<lparr>bill_id = i, b_cycle_id = 1, b_group_id = 7, b_user_id = 42, amount = int i,
      description = [32], created_at = ''2025-01-01T09:00:00''\<rparr>"

definition ledger_25 :: database where
  "ledger_25 =
     \<lparr>cycles = [\<lparr>cycle_id = 1, c_group_id = 7, start_time = ''2025-01-01T09:00:00'',
                 end_time = None, is_active = True\<rparr>],
      cycles_seq = 1, bills = map bill_no [1..<26], bills_seq = 25,
      previous_balances = [], previous_balances_seq = 0\<rparr>"

chapter \<open>Properties\<close>

section \<open>Unfolding the model on concrete inputs\<close>

lemmas handler_defs = handle_command_def record_user_def utf8_encodable_def
  entry_except_def carry_except_def
  open_cycle_def close_cycle_def add_entry_def record_carry_over_def
  undo_last_def import_balance_def get_active_cycle_def active_cycles_def
  get_previous_balance_def insert_bill_def insert_previous_balance_def close_transaction_def
  get_cycle_summary_def cycle_bills_def sql_sum_def sqlite_int_def order_by_bill_id_desc_def
  entry_description_def carry_description_def carry_exists_def
  is_deposit_def is_withdrawal_def is_carry_over_def like_carry_def carry_tag_def
  default_carry_note_def auto_import_description_def Let_def

lemmas start_defs = operator_def init_state_def init_group_db_def

section \<open>The summary\<close>

lemma sql_sum_from_value: "sql_sum_from acc vs = Inr r \<Longrightarrow> r = acc + sum_list vs"
proof (induction vs arbitrary: acc)
  case Nil
  then show ?case by simp
next
  case (Cons v vs)
  then show ?case by (fastforce split: if_splits)
qed

lemma sql_sum_value: "sql_sum vs = Inr r \<Longrightarrow> r = sum_list vs"
  using sql_sum_from_value[of 0 vs r] by (simp add: sql_sum_def)

lemma sum_list_abs_nonneg: "0 \<le> (\<Sum>v\<leftarrow>vs. \<bar>v :: int\<bar>)"
  by (induction vs) auto

lemma sql_sum_from_bounded:
  "\<bar>acc\<bar> + (\<Sum>v\<leftarrow>vs. \<bar>v\<bar>) < 2 ^ 63 \<Longrightarrow> sql_sum_from acc vs = Inr (acc + sum_list vs)"
proof (induction vs arbitrary: acc)
  case Nil
  then show ?case by simp
next
  case (Cons v vs)
  have nn: "0 \<le> (\<Sum>v\<leftarrow>vs. \<bar>v\<bar>)" by (rule sum_list_abs_nonneg)
  from Cons.prems have b: "\<bar>acc\<bar> + (\<bar>v\<bar> + (\<Sum>v\<leftarrow>vs. \<bar>v\<bar>)) < 2 ^ 63" by simp
  from b nn have "sqlite_int (acc + v)" unfolding sqlite_int_def by linarith
  moreover from b have "\<bar>acc + v\<bar> + (\<Sum>v\<leftarrow>vs. \<bar>v\<bar>) < 2 ^ 63" by linarith
  ultimately show ?case using Cons.IH[of "acc + v"] by (simp add: add.assoc)
qed

lemma sql_sum_bounded: "(\<Sum>v\<leftarrow>vs. \<bar>v\<bar>) < 2 ^ 63 \<Longrightarrow> sql_sum vs = Inr (sum_list vs)"
  using sql_sum_from_bounded[of 0 vs] by (simp add: sql_sum_def)

lemma sum_abs_filter_le:
  "(\<Sum>b\<leftarrow>filter P rows. \<bar>amount b\<bar>) \<le> (\<Sum>b\<leftarrow>rows. \<bar>amount b\<bar>)"
  by (induction rows) auto

lemma withdrawals_nonpos: "(\<Sum>b\<leftarrow>filter is_withdrawal rows. amount b) \<le> 0"
  by (induction rows) (auto simp: is_withdrawal_def)

lemma sum_neg_amount: "(\<Sum>b\<leftarrow>rows. - amount b) = - (\<Sum>b\<leftarrow>rows. amount b)"
  by (induction rows) auto

lemma class_sums_total:
  "(\<Sum>b\<leftarrow>filter is_deposit rows. amount b) + (\<Sum>b\<leftarrow>filter is_withdrawal rows. amount b)
     + (\<Sum>b\<leftarrow>filter is_carry_over rows. amount b) = (\<Sum>b\<leftarrow>rows. amount b)"
  by (induction rows) (auto simp: is_deposit_def is_withdrawal_def is_carry_over_def)

text \<open>What each field of a computed summary is.\<close>

lemma summary_fields:
  assumes "get_cycle_summary conn cid = Inr s"
  shows "total_deposits s = sum_ordinary_deposits conn cid"
    and "total_withdrawals s = sum_ordinary_withdrawals conn cid"
    and "previous_balance s = sum_carry_over conn cid"
    and "net_balance s = total_deposits s - total_withdrawals s + previous_balance s"
    and "deposit_count s = length (filter is_deposit (cycle_bills conn cid))"
    and "withdrawal_count s = length (filter is_withdrawal (cycle_bills conn cid))"
proof -
  let ?rows = "cycle_bills conn cid"
  obtain r0 r2 r4 where
    r0: "sql_sum (map amount (filter is_deposit ?rows)) = Inr r0" and
    r2: "sql_sum (map amount (filter is_withdrawal ?rows)) = Inr r2" and
    r4: "sql_sum (map amount (filter is_carry_over ?rows)) = Inr r4" and
    s: "total_deposits s = r0" "total_withdrawals s = \<bar>r2\<bar>" "previous_balance s = r4"
       "net_balance s = r0 - \<bar>r2\<bar> + r4"
       "deposit_count s = length (filter is_deposit ?rows)"
       "withdrawal_count s = length (filter is_withdrawal ?rows)"
    using assms by (auto simp: get_cycle_summary_def Let_def split: sum.splits)
  have v2: "r2 = (\<Sum>b\<leftarrow>filter is_withdrawal ?rows. amount b)"
    using sql_sum_value[OF r2] by (simp add: comp_def)
  have "r2 \<le> 0" unfolding v2 by (rule withdrawals_nonpos)
  then have "\<bar>r2\<bar> = sum_ordinary_withdrawals conn cid"
    by (simp add: sum_ordinary_withdrawals_def sum_neg_amount v2)
  then show "total_withdrawals s = sum_ordinary_withdrawals conn cid" using s by simp
  show "total_deposits s = sum_ordinary_deposits conn cid"
    using sql_sum_value[OF r0] s by (simp add: sum_ordinary_deposits_def comp_def)
  show "previous_balance s = sum_carry_over conn cid"
    using sql_sum_value[OF r4] s by (simp add: sum_carry_over_def comp_def)
  show "net_balance s = total_deposits s - total_withdrawals s + previous_balance s"
    using s by simp
  show "deposit_count s = length (filter is_deposit (cycle_bills conn cid))" using s by simp
  show "withdrawal_count s = length (filter is_withdrawal (cycle_bills conn cid))" using s by simp
qed

text \<open>The net balance is the plain sum of the amounts of the cycle's entries.\<close>

lemma net_balance_total:
  assumes "get_cycle_summary conn cid = Inr s"
  shows "net_balance s = (\<Sum>e\<leftarrow>entries conn cid. fst e)"
proof -
  have "net_balance s = sum_ordinary_deposits conn cid - sum_ordinary_withdrawals conn cid
          + sum_carry_over conn cid"
    using summary_fields[OF assms] by simp
  also have "\<dots> = (\<Sum>b\<leftarrow>cycle_bills conn cid. amount b)"
    using class_sums_total[of "cycle_bills conn cid"]
    by (simp add: sum_ordinary_deposits_def sum_ordinary_withdrawals_def sum_carry_over_def
        sum_neg_amount)
  finally show ?thesis by (simp add: entries_def comp_def)
qed

text \<open>The summary is computed whenever the amounts of the cycle are far from the
  64-bit bound.\<close>

lemma summary_returns:
  assumes "(\<Sum>b\<leftarrow>cycle_bills conn cid. \<bar>amount b\<bar>) < 2 ^ 63"
  shows "\<exists>s. get_cycle_summary conn cid = Inr s"
proof -
  have "\<And>P. (\<Sum>v\<leftarrow>map amount (filter P (cycle_bills conn cid)). \<bar>v\<bar>) < 2 ^ 63"
    using sum_abs_filter_le[of _ "cycle_bills conn cid"] assms
    by (simp add: comp_def) (meson le_less_trans)
  then show ?thesis
    by (simp add: get_cycle_summary_def Let_def sql_sum_bounded)
qed

lemma entries_sum_perm:
  assumes "mset (entries conn' cid') = mset (entries conn cid)"
  shows "(\<Sum>e\<leftarrow>entries conn' cid'. fst e) = (\<Sum>e\<leftarrow>entries conn cid. fst e)"
proof -
  have "mset (map fst (entries conn' cid')) = mset (map fst (entries conn cid))"
    using assms by (metis mset_map)
  then show ?thesis by (metis sum_mset_sum_list)
qed

text \<open>
  Claim C1, as the code has it. The net balance of a computed summary is the sum of the
  ordinary deposits, minus the sum of the ordinary withdrawals, plus the sum of the
  entries with the reserved prefix; the group's stored carried balance is not part of
  it. Two ledgers that hold the same entries of a cycle, in whatever order they were
  entered, have the same net balance. The summary is computed whenever the absolute
  amounts of the cycle add up to less than \<open>2 ^ 63\<close>.
\<close>

theorem net_balance_formula:
  "(\<forall>s. get_cycle_summary conn cid = Inr s \<longrightarrow>
        net_balance s =
          sum_ordinary_deposits conn cid - sum_ordinary_withdrawals conn cid
            + sum_carry_over conn cid)
   \<and> (\<forall>conn' cid' s s'.
         mset (entries conn' cid') = mset (entries conn cid) \<longrightarrow>
         get_cycle_summary conn cid = Inr s \<longrightarrow>
         get_cycle_summary conn' cid' = Inr s' \<longrightarrow>
         net_balance s' = net_balance s)
   \<and> ((\<Sum>b\<leftarrow>cycle_bills conn cid. \<bar>amount b\<bar>) < 2 ^ 63 \<longrightarrow>
        (\<exists>s. get_cycle_summary conn cid = Inr s))"
proof (intro conjI allI impI)
  fix s
  assume "get_cycle_summary conn cid = Inr s"
  then show "net_balance s =
      sum_ordinary_deposits conn cid - sum_ordinary_withdrawals conn cid
        + sum_carry_over conn cid"
    using summary_fields[of conn cid s] by simp
next
  fix conn' cid' s s'
  assume "mset (entries conn' cid') = mset (entries conn cid)"
    and "get_cycle_summary conn cid = Inr s"
    and "get_cycle_summary conn' cid' = Inr s'"
  then show "net_balance s' = net_balance s"
    using net_balance_total[of conn cid s] net_balance_total[of conn' cid' s']
      entries_sum_perm[of conn' cid' conn cid] by simp
next
  assume "(\<Sum>b\<leftarrow>cycle_bills conn cid. \<bar>amount b\<bar>) < 2 ^ 63"
  then show "\<exists>s. get_cycle_summary conn cid = Inr s"
    by (rule summary_returns)
qed

lemma ledger_a_summary:
  "get_cycle_summary (db ledger_a) 1 =
     Inr \<lparr>total_deposits = 1000, deposit_count = 1, total_withdrawals = 300,
          withdrawal_count = 1, previous_balance = 200, net_balance = 900,
          deposits = [(1000, ''2025-01-01T09:00:00'')],
          withdrawals = [(- 300, ''2025-01-01T09:00:00'')]\<rparr>"
  by (simp add: ledger_a_def handler_defs start_defs)

lemma ledger_b_summary:
  "get_cycle_summary (db ledger_b) 1 =
     Inr \<lparr>total_deposits = 1000, deposit_count = 1, total_withdrawals = 300,
          withdrawal_count = 1, previous_balance = 200, net_balance = 900,
          deposits = [(1000, ''2025-01-01T09:00:00'')],
          withdrawals = [(- 300, ''2025-01-01T09:00:00'')]\<rparr>"
  by (simp add: ledger_b_def handler_defs start_defs)

lemma ledger_entries:
  "entries (db ledger_a) 1 =
     [(1000, [32]), (- 300, [32]), (200, [91, 32467, 20313, 93, 32, 19978, 26399, 32467, 20313])]"
  "entries (db ledger_b) 1 =
     [(200, [91, 32467, 20313, 93, 32, 19978, 26399, 32467, 20313]), (- 300, [32]), (1000, [32])]"
  by (simp_all add: entries_def ledger_a_def ledger_b_def handler_defs start_defs)

theorem net_balance_formula_witness:
  "\<exists>s s'. get_cycle_summary (db ledger_a) 1 = Inr s
     \<and> get_cycle_summary (db ledger_b) 1 = Inr s'
     \<and> mset (entries (db ledger_b) 1) = mset (entries (db ledger_a) 1)
     \<and> net_balance s = 900
     \<and> sum_ordinary_deposits (db ledger_a) 1 - sum_ordinary_withdrawals (db ledger_a) 1
          + sum_carry_over (db ledger_a) 1 = 900
     \<and> net_balance s' = net_balance s"
proof -
  have bound: "(\<Sum>b\<leftarrow>cycle_bills (db ledger_a) 1. \<bar>amount b\<bar>) < 2 ^ 63"
    by (simp add: ledger_a_def handler_defs start_defs)
  have same: "mset (entries (db ledger_b) 1) = mset (entries (db ledger_a) 1)"
    by (simp only: ledger_entries) (simp add: add_mset_commute)
  from net_balance_formula[of "db ledger_a" 1] bound
  obtain s where s: "get_cycle_summary (db ledger_a) 1 = Inr s"
    and f: "net_balance s =
      sum_ordinary_deposits (db ledger_a) 1 - sum_ordinary_withdrawals (db ledger_a) 1
        + sum_carry_over (db ledger_a) 1"
    by blast
  obtain s' where s': "get_cycle_summary (db ledger_b) 1 = Inr s'"
    using ledger_b_summary by blast
  have eq: "net_balance s' = net_balance s"
    using net_balance_formula[of "db ledger_a" 1] same s s' by blast
  have "net_balance s = 900" using s ledger_a_summary by simp
  with s s' same f eq show ?thesis by auto
qed

lemma carried_state_eq:
  "carried_state =
     \<lparr>db = \<lparr>cycles =
              [\<lparr>cycle_id = 1, c_group_id = 7, start_time = ''2025-01-01T09:00:00'',
                end_time = Some ''2025-01-01T09:00:00'', is_active = False\<rparr>,
               \<lparr>cycle_id = 2, c_group_id = 7, start_time = ''2025-01-01T09:00:00'',
                end_time = None, is_active = True\<rparr>],
            cycles_seq = 2,
            bills =
              [\<lparr>bill_id = 1, b_cycle_id = 1, b_group_id = 7, b_user_id = 42, amount = 900,
                description = [32], created_at = ''2025-01-01T09:00:00''\<rparr>,
               \<lparr>bill_id = 2, b_cycle_id = 2, b_group_id = 7, b_user_id = 42, amount = 100,
                description = [32], created_at = ''2025-01-01T09:00:00''\<rparr>],
            bills_seq = 2,
            previous_balances =
              [\<lparr>pb_id = 1, pb_group_id = 7, pb_amount = 900,
                pb_created_at = ''2025-01-01T09:00:00''\<rparr>],
            previous_balances_seq = 1\<rparr>,
      bot_data = Some 2,
      users = [\<lparr>u_user_id = 42, u_username = [64, 111, 112]\<rparr>]\<rparr>"
  by (simp add: carried_state_def handler_defs start_defs)

text \<open>
  Claim C1 as the specification words it adds the stored carried balance. After a close
  that carried 900 and one deposit of 100 in the next cycle, the summary's net balance
  of the active cycle 2 is 100 while the specification's formula gives 1000.
\<close>

theorem net_balance_spec_counterexample:
  "(case get_cycle_summary (db carried_state) 2 of
      Inl e \<Rightarrow> False
    | Inr s \<Rightarrow> net_balance s = 100 \<and> spec_net_balance (db carried_state) 7 2 = 1000
        \<and> map cycle_id (active_cycles (db carried_state) 7) = [2])"
  by (simp add: carried_state_eq spec_net_balance_def sum_ordinary_deposits_def
      sum_ordinary_withdrawals_def sum_carry_over_def handler_defs)

section \<open>What each handler does to the state\<close>

lemma get_active_cycle_db [simp]: "db (snd (get_active_cycle gid s)) = db s"
  by (simp add: get_active_cycle_def split: option.splits list.splits)

lemma get_active_cycle_users [simp]: "users (snd (get_active_cycle gid s)) = users s"
  by (simp add: get_active_cycle_def split: option.splits list.splits)

lemma get_active_cycle_state: "\<exists>b. snd (get_active_cycle gid s) = s\<lparr>bot_data := b\<rparr>"
proof (cases "snd (get_active_cycle gid s) = s")
  case True
  then have "snd (get_active_cycle gid s) = s\<lparr>bot_data := bot_data s\<rparr>" by simp
  then show ?thesis by blast
next
  case False
  then show ?thesis
    by (auto simp: get_active_cycle_def split: option.splits list.splits if_splits)
qed

text \<open>The lookup reads the cache and the cycles only.\<close>

lemma get_active_cycle_fst_cong:
  "db s' = db s \<Longrightarrow> bot_data s' = bot_data s \<Longrightarrow>
     fst (get_active_cycle gid s') = fst (get_active_cycle gid s)"
  by (simp add: get_active_cycle_def split: option.splits list.splits)

lemma get_active_cycle_users_update:
  "get_active_cycle gid (s\<lparr>users := x\<rparr>) =
     (fst (get_active_cycle gid s), (snd (get_active_cycle gid s))\<lparr>users := x\<rparr>)"
  by (simp add: get_active_cycle_def split: option.splits list.splits)

text \<open>\<open>record_user\<close> writes the users table only.\<close>

lemma record_user_frame:
  "record_user user s = Inr s0 \<Longrightarrow>
     db s0 = db s \<and> bot_data s0 = bot_data s \<and> s0 = s\<lparr>users := users s0\<rparr>"
  by (auto simp: record_user_def Let_def split: option.splits if_splits)

lemma get_active_cycle_cache:
  "bot_data s \<noteq> Some 0 \<Longrightarrow> bot_data (snd (get_active_cycle gid s)) \<noteq> Some 0"
  by (auto simp: get_active_cycle_def split: option.splits list.splits)

lemma get_active_cycle_coherent:
  "cache_coherent gid s \<Longrightarrow> cache_coherent gid (snd (get_active_cycle gid s))"
  by (auto simp: get_active_cycle_def cache_coherent_def split: option.splits list.splits)

lemma get_active_cycle_cases:
  obtains r s1 where "get_active_cycle gid s = (r, s1)" "db s1 = db s"
proof (cases "get_active_cycle gid s")
  case (Pair r s1)
  with get_active_cycle_db[of gid s] that show ?thesis
    by auto
qed

text \<open>In a well-formed state the lookup answers from the database: nothing when no
  cycle of the group is active, and the one active cycle otherwise.\<close>

lemma get_active_cycle_none:
  assumes "cache_coherent gid s" "active_cycles (db s) gid = []"
  shows "get_active_cycle gid s = (None, s)"
  using assms by (auto simp: get_active_cycle_def cache_coherent_def split: option.splits)

lemma get_active_cycle_some:
  assumes "cache_coherent gid s" "inv_cycles gid s" "active_cycles (db s) gid = c # cs"
  shows "get_active_cycle gid s = (Some (cycle_id c), s\<lparr>bot_data := Some (cycle_id c)\<rparr>)"
    and "cycle_id c \<noteq> 0" and "cs = []"
proof -
  from assms(2,3) show cs: "cs = []" by (simp add: inv_cycles_def active_count_def)
  have "c \<in> set (cycles (db s))"
    using assms(3) by (metis active_cycles_def filter_is_subset list.set_intros(1) subsetD)
  with assms(2) show nz: "cycle_id c \<noteq> 0"
    by (auto simp: inv_cycles_def ids_positive_def list_all_iff)
  show "get_active_cycle gid s = (Some (cycle_id c), s\<lparr>bot_data := Some (cycle_id c)\<rparr>)"
  proof (cases "bot_data s")
    case None
    with assms(3) nz show ?thesis by (simp add: get_active_cycle_def)
  next
    case (Some k)
    with assms(1,3) cs have "k = cycle_id c" by (simp add: cache_coherent_def)
    with Some show ?thesis by (simp add: get_active_cycle_def)
  qed
qed

lemma insert_bill_frame:
  "insert_bill conn cid gid uid amt d t = Inr conn1 \<Longrightarrow>
     conn1 = conn\<lparr>bills := bills conn @
          [\<lparr>bill_id = Suc (bills_seq conn), b_cycle_id = cid, b_group_id = gid,
            b_user_id = uid, amount = amt, description = d, created_at = t\<rparr>],
          bills_seq := Suc (bills_seq conn)\<rparr> \<and> sqlite_int amt \<and> utf8_encodable d"
  by (auto simp: insert_bill_def split: if_splits)

text \<open>The two ways each of the entry handlers ends: without a change of the database,
  or with one committed statement and the summary computed after it.\<close>

lemma add_entry_result:
  assumes "add_entry gid u parsed args s = (rep, s')"
  shows "(db s' = db s \<and> (s' = s \<or> s' = snd (get_active_cycle gid s))
           \<and> (\<forall>sm. rep \<noteq> Entry_added sm))
     \<or> (\<exists>cid amt conn1 sm. authorized u \<and> fst (get_active_cycle gid s) = Some cid
           \<and> cid \<noteq> 0 \<and> parsed = Some amt
           \<and> insert_bill (db s) cid gid (user_id u) amt (entry_description args) (clock u 0)
               = Inr conn1
           \<and> get_cycle_summary conn1 cid = Inr sm
           \<and> rep = Entry_added sm \<and> s' = (snd (get_active_cycle gid s))\<lparr>db := conn1\<rparr>)"
proof (cases rule: get_active_cycle_cases[of gid s])
  case (1 r s1)
  with assms show ?thesis
    unfolding add_entry_def
    by (auto simp: entry_except_def split: if_splits option.splits sum.splits)
qed

lemma record_carry_over_result:
  assumes "record_carry_over gid u args parsed s = (rep, s')"
  shows "(db s' = db s \<and> (s' = s \<or> s' = snd (get_active_cycle gid s))
           \<and> (\<forall>sm. rep \<noteq> Carry_recorded sm))
     \<or> (\<exists>cid a rest amt conn1 sm. authorized u \<and> fst (get_active_cycle gid s) = Some cid
           \<and> cid \<noteq> 0 \<and> args = a # rest \<and> parsed = Some amt
           \<and> \<not> carry_exists (db s) cid
           \<and> insert_bill (db s) cid gid (user_id u) amt (carry_description rest) (clock u 0)
               = Inr conn1
           \<and> get_cycle_summary conn1 cid = Inr sm
           \<and> rep = Carry_recorded sm \<and> s' = (snd (get_active_cycle gid s))\<lparr>db := conn1\<rparr>)"
proof (cases rule: get_active_cycle_cases[of gid s])
  case (1 r s1)
  with assms show ?thesis
    unfolding record_carry_over_def
    by (auto simp: carry_except_def split: if_splits option.splits sum.splits list.splits)
qed

lemma import_balance_result:
  assumes "import_balance gid u amt s = (rep, s')"
  shows "(db s' = db s \<and> (s' = s \<or> s' = snd (get_active_cycle gid s))
           \<and> (\<forall>a sm. rep \<noteq> Imported a sm))
     \<or> (\<exists>cid conn1 sm. authorized u \<and> fst (get_active_cycle gid s) = Some cid
           \<and> cid \<noteq> 0 \<and> \<not> carry_exists (db s) cid
           \<and> insert_bill (db s) cid gid (user_id u) amt auto_import_description (clock u 0)
               = Inr conn1
           \<and> get_cycle_summary conn1 cid = Inr sm
           \<and> rep = Imported amt sm \<and> s' = (snd (get_active_cycle gid s))\<lparr>db := conn1\<rparr>)"
proof (cases rule: get_active_cycle_cases[of gid s])
  case (1 r s1)
  with assms show ?thesis
    unfolding import_balance_def
    by (auto split: if_splits option.splits sum.splits)
qed

lemma undo_last_result:
  assumes "undo_last gid u s = (rep, s')"
  shows "(db s' = db s \<and> (s' = s \<or> s' = snd (get_active_cycle gid s))
           \<and> (\<forall>b sm. rep \<noteq> Undone b sm))
     \<or> (\<exists>cid last_bill rest sm. authorized u \<and> fst (get_active_cycle gid s) = Some cid
           \<and> cid \<noteq> 0
           \<and> order_by_bill_id_desc (cycle_bills (db s) cid) = last_bill # rest
           \<and> get_cycle_summary
                ((db s)\<lparr>bills := filter (\<lambda>b. bill_id b \<noteq> bill_id last_bill) (bills (db s))\<rparr>)
                cid = Inr sm
           \<and> rep = Undone last_bill sm
           \<and> s' = (snd (get_active_cycle gid s))
                 \<lparr>db := (db s)\<lparr>bills :=
                     filter (\<lambda>b. bill_id b \<noteq> bill_id last_bill) (bills (db s))\<rparr>\<rparr>)"
proof (cases rule: get_active_cycle_cases[of gid s])
  case (1 r s1)
  have t: "take 1 xs = (case xs of [] \<Rightarrow> [] | b # _ \<Rightarrow> [b])" for xs :: "bill list"
    by (simp split: list.splits)
  from assms 1 show ?thesis
    unfolding undo_last_def t
    by (auto simp: Let_def split: if_splits option.splits sum.splits list.splits)
qed

section \<open>The summary and the last entry of a cycle\<close>

lemma sql_sum_from_append:
  "sql_sum_from acc (xs @ ys) =
     (case sql_sum_from acc xs of Inl e \<Rightarrow> Inl OperationalError | Inr r \<Rightarrow> sql_sum_from r ys)"
  by (induction xs arbitrary: acc) auto

lemma sql_sum_snoc:
  "sql_sum (xs @ [v]) = Inr r \<longleftrightarrow> sql_sum xs = Inr (r - v) \<and> sqlite_int r"
  by (auto simp: sql_sum_def sql_sum_from_append split: sum.splits if_splits)

text \<open>The summary of a cycle reads only the bills of that cycle.\<close>

lemma get_cycle_summary_cong:
  "cycle_bills conn1 cid = cycle_bills conn cid \<Longrightarrow>
     get_cycle_summary conn1 cid = get_cycle_summary conn cid"
  by (simp add: get_cycle_summary_def)


text \<open>What the summary was before the newest entry of the cycle was appended: it could
  be computed, and an entry with the reserved prefix has only moved
  \<open>previous_balance\<close> and the net balance.\<close>

lemma summary_before_last:
  assumes "cycle_bills conn1 cid = cycle_bills conn cid @ [b]"
    and "get_cycle_summary conn1 cid = Inr sm"
  shows "\<exists>sm0. get_cycle_summary conn cid = Inr sm0"
proof -
  let ?rows = "cycle_bills conn cid"
  have pre: "\<exists>r0. sql_sum (map amount (filter P ?rows)) = Inr r0"
    if "sql_sum (map amount (filter P (?rows @ [b]))) = Inr r" for P r
  proof (cases "P b")
    case True
    with that show ?thesis by (simp add: sql_sum_snoc)
  next
    case False
    with that show ?thesis by simp
  qed
  from assms obtain r0 r2 r4 where
    "sql_sum (map amount (filter is_deposit (?rows @ [b]))) = Inr r0"
    "sql_sum (map amount (filter is_withdrawal (?rows @ [b]))) = Inr r2"
    "sql_sum (map amount (filter is_carry_over (?rows @ [b]))) = Inr r4"
    by (auto simp: get_cycle_summary_def Let_def split: sum.splits)
  from pre[OF this(1)] pre[OF this(2)] pre[OF this(3)] show ?thesis
    by (auto simp: get_cycle_summary_def Let_def)
qed


text \<open>With keys in insertion order, the newest entry of a cycle is the last bill of
  the cycle, and deleting its key removes exactly it.\<close>

lemma cycle_bills_sorted:
  assumes "bills_wf conn"
  shows "sorted_wrt (\<lambda>a b. bill_id a < bill_id b) (cycle_bills conn cid)"
  using assms by (simp add: bills_wf_def cycle_bills_def sorted_wrt_map sorted_wrt_filter)

lemma order_desc_sorted:
  assumes "sorted_wrt (\<lambda>a b. bill_id a < bill_id b) rows"
  shows "order_by_bill_id_desc rows = rev rows"
proof -
  from assms have "sorted_wrt (\<lambda>a b. bill_id a \<le> bill_id b) rows"
    by (rule sorted_wrt_mono_rel[rotated]) simp
  then have "sorted (map bill_id rows)" by (simp add: sorted_wrt_map)
  then show ?thesis by (simp add: order_by_bill_id_desc_def sort_key_id_if_sorted)
qed

lemma bill_ids_inj:
  assumes "bills_wf conn" "a \<in> set (bills conn)" "b \<in> set (bills conn)"
    "bill_id a = bill_id b"
  shows "a = b"
proof -
  from assms(1) have "distinct (map bill_id (bills conn))"
    by (simp add: bills_wf_def strict_sorted_iff)
  then have "inj_on bill_id (set (bills conn))" by (simp add: distinct_map)
  with assms(2,3,4) show ?thesis by (auto dest: inj_onD)
qed

lemma delete_last_of_cycle:
  assumes "bills_wf conn" "cycle_bills conn cid = rows @ [b]"
  shows "cycle_bills (conn\<lparr>bills := filter (\<lambda>x. bill_id x \<noteq> bill_id b) (bills conn)\<rparr>) cid'
      = (if cid' = cid then rows else cycle_bills conn cid')"
proof -
  have "b \<in> set (cycle_bills conn cid)" using assms(2) by simp
  then have b: "b \<in> set (bills conn)" "b_cycle_id b = cid"
    by (simp_all add: cycle_bills_def)
  have same: "bill_id x \<noteq> bill_id b \<longleftrightarrow> x \<noteq> b" if "x \<in> set (bills conn)" for x
    using bill_ids_inj[OF assms(1) that b(1)] by auto
  have f: "filter (\<lambda>x. bill_id x \<noteq> bill_id b) (bills conn) = filter (\<lambda>x. x \<noteq> b) (bills conn)"
    by (rule filter_cong) (simp_all add: same)
  have c: "cycle_bills (conn\<lparr>bills := filter (\<lambda>x. bill_id x \<noteq> bill_id b) (bills conn)\<rparr>) cid'
      = filter (\<lambda>x. x \<noteq> b) (cycle_bills conn cid')"
    unfolding f by (auto simp: cycle_bills_def intro: filter_cong)
  show ?thesis
  proof (cases "cid' = cid")
    case True
    from cycle_bills_sorted[OF assms(1), of cid] assms(2)
    have "\<forall>x\<in>set rows. bill_id x < bill_id b" by (simp add: sorted_wrt_append)
    then have "filter (\<lambda>x. x \<noteq> b) (rows @ [b]) = rows"
      by (auto simp: filter_id_conv)
    with c True assms(2) show ?thesis by simp
  next
    case False
    then have "\<forall>x\<in>set (cycle_bills conn cid'). x \<noteq> b"
      using b(2) by (auto simp: cycle_bills_def)
    then have "filter (\<lambda>x. x \<noteq> b) (cycle_bills conn cid') = cycle_bills conn cid'"
      by (simp add: filter_id_conv)
    with c False show ?thesis by simp
  qed
qed

lemma summaries_ok_insert:
  assumes "summaries_ok conn" "insert_bill conn cid gid uid amt d t = Inr conn1"
    and "get_cycle_summary conn1 cid = Inr sm"
  shows "summaries_ok conn1"
  unfolding summaries_ok_def
proof
  fix cid'
  show "\<exists>sm. get_cycle_summary conn1 cid' = Inr sm"
  proof (cases "cid' = cid")
    case True
    with assms(3) show ?thesis by simp
  next
    case False
    from insert_bill_frame[OF assms(2)] False
    have "cycle_bills conn1 cid' = cycle_bills conn cid'" by (simp add: cycle_bills_def)
    from get_cycle_summary_cong[OF this] assms(1) show ?thesis
      by (simp add: summaries_ok_def)
  qed
qed

lemma summaries_ok_delete:
  assumes "summaries_ok conn" "bills_wf conn"
    and "order_by_bill_id_desc (cycle_bills conn cid) = b # rest"
  shows "summaries_ok (conn\<lparr>bills := filter (\<lambda>x. bill_id x \<noteq> bill_id b) (bills conn)\<rparr>)"
    and "cycle_bills conn cid = rev rest @ [b]"
    and "cycle_bills (conn\<lparr>bills := filter (\<lambda>x. bill_id x \<noteq> bill_id b) (bills conn)\<rparr>) cid
      = rev rest"
proof -
  let ?conn1 = "conn\<lparr>bills := filter (\<lambda>x. bill_id x \<noteq> bill_id b) (bills conn)\<rparr>"
  from order_desc_sorted[OF cycle_bills_sorted[OF assms(2)], of cid] assms(3)
  have "rev (cycle_bills conn cid) = b # rest" by simp
  then show rows: "cycle_bills conn cid = rev rest @ [b]" by (simp add: rev_swap)
  note del = delete_last_of_cycle[OF assms(2) rows]
  from del[of cid] show "cycle_bills ?conn1 cid = rev rest" by simp
  show "summaries_ok ?conn1"
    unfolding summaries_ok_def
  proof
    fix cid'
    show "\<exists>sm. get_cycle_summary ?conn1 cid' = Inr sm"
    proof (cases "cid' = cid")
      case True
      from assms(1) obtain sm where "get_cycle_summary conn cid = Inr sm"
        by (auto simp: summaries_ok_def)
      from summary_before_last[of conn cid ?conn1 b sm] rows del[of cid] this True
      show ?thesis by simp
    next
      case False
      with del[of cid'] have "cycle_bills ?conn1 cid' = cycle_bills conn cid'" by simp
      from get_cycle_summary_cong[OF this] assms(1) show ?thesis
        by (simp add: summaries_ok_def)
    qed
  qed
qed

section \<open>The invariants hold after every run\<close>

text \<open>The invariants speak of the ledger tables and the cache only.\<close>

lemma wf_state_cong:
  "db s' = db s \<Longrightarrow> bot_data s' = bot_data s \<Longrightarrow> wf_state gid s' = wf_state gid s"
  by (simp add: wf_state_def inv_cycles_def ids_positive_def cache_coherent_def
      split: option.splits)

lemma record_user_wf:
  "record_user user s = Inr s0 \<Longrightarrow> wf_state gid s0 = wf_state gid s"
  using record_user_frame[of user s s0] wf_state_cong[of s0 s gid] by simp

lemma unchanged_wf:
  assumes "wf_state gid s" "db s' = db s" "s' = s \<or> s' = snd (get_active_cycle gid s)"
  shows "wf_state gid s'"
proof -
  from assms(3) have "bot_data s' = bot_data s
      \<or> bot_data s' = bot_data (snd (get_active_cycle gid s))"
    by auto
  with assms(1,2) get_active_cycle_cache[of s gid] have "inv_cycles gid s'"
    by (auto simp: wf_state_def inv_cycles_def active_count_def active_cycles_def
        ids_positive_def)
  moreover from assms get_active_cycle_coherent[of gid s] have "cache_coherent gid s'"
    by (auto simp: wf_state_def)
  moreover from assms(1,2) have "bills_wf (db s')" "summaries_ok (db s')"
    by (simp_all add: wf_state_def)
  ultimately show ?thesis by (simp add: wf_state_def)
qed

lemma bills_changed_wf:
  assumes "wf_state gid s" "cycles conn1 = cycles (db s)" "bills_wf conn1"
    "summaries_ok conn1"
  shows "wf_state gid ((snd (get_active_cycle gid s))\<lparr>db := conn1\<rparr>)"
proof -
  let ?s1 = "snd (get_active_cycle gid s)"
  have s1: "wf_state gid ?s1" using unchanged_wf[OF assms(1), of ?s1] by simp
  have ac: "active_cycles conn1 gid = active_cycles (db s) gid"
    using assms(2) by (simp add: active_cycles_def)
  from s1 have "cache_coherent gid ?s1" by (simp add: wf_state_def)
  then have "cache_coherent gid (?s1\<lparr>db := conn1\<rparr>)"
    by (auto simp: cache_coherent_def ac split: option.splits)
  moreover from s1 have "inv_cycles gid (?s1\<lparr>db := conn1\<rparr>)"
    by (simp add: wf_state_def inv_cycles_def active_count_def ids_positive_def ac assms(2))
  ultimately show ?thesis using assms(3,4) by (simp add: wf_state_def)
qed

lemma bills_wf_insert:
  assumes "bills_wf conn" "insert_bill conn cid gid uid amt d t = Inr conn1"
  shows "bills_wf conn1"
proof -
  from insert_bill_frame[OF assms(2)]
  have c: "conn1 = conn\<lparr>bills := bills conn @
          [\<lparr>bill_id = Suc (bills_seq conn), b_cycle_id = cid, b_group_id = gid,
            b_user_id = uid, amount = amt, description = d, created_at = t\<rparr>],
          bills_seq := Suc (bills_seq conn)\<rparr>"
    by simp
  from assms(1) show ?thesis
    unfolding c bills_wf_def
    by (auto simp: sorted_wrt_append list_all_iff le_imp_less_Suc le_SucI)
qed

lemma bills_wf_filter:
  assumes "bills_wf conn"
  shows "bills_wf (conn\<lparr>bills := filter P (bills conn)\<rparr>)"
  using assms
  by (auto simp: bills_wf_def sorted_wrt_map sorted_wrt_filter list_all_iff)

lemma add_entry_wf:
  assumes "wf_state gid s"
  shows "wf_state gid (snd (add_entry gid u parsed args s))"
proof (cases "add_entry gid u parsed args s")
  case (Pair rep s')
  have inserted: "wf_state gid s'"
    if "insert_bill (db s) cid gid uid amt d t = Inr conn1"
      "get_cycle_summary conn1 cid = Inr sm"
      "s' = (snd (get_active_cycle gid s))\<lparr>db := conn1\<rparr>" for cid uid amt d t conn1 sm
  proof -
    from bills_wf_insert[OF _ that(1)] assms have "bills_wf conn1" by (simp add: wf_state_def)
    moreover from insert_bill_frame[OF that(1)] have "cycles conn1 = cycles (db s)" by simp
    moreover from summaries_ok_insert[OF _ that(1,2)] assms have "summaries_ok conn1"
      by (simp add: wf_state_def)
    ultimately show ?thesis using bills_changed_wf[OF assms] that(3) by simp
  qed
  from add_entry_result[OF Pair] unchanged_wf[OF assms, of s'] inserted
  have "wf_state gid s'" by blast
  then show ?thesis by (simp add: Pair)
qed

lemma record_carry_over_wf:
  assumes "wf_state gid s"
  shows "wf_state gid (snd (record_carry_over gid u args parsed s))"
proof (cases "record_carry_over gid u args parsed s")
  case (Pair rep s')
  have inserted: "wf_state gid s'"
    if "insert_bill (db s) cid gid uid amt d t = Inr conn1"
      "get_cycle_summary conn1 cid = Inr sm"
      "s' = (snd (get_active_cycle gid s))\<lparr>db := conn1\<rparr>" for cid uid amt d t conn1 sm
  proof -
    from bills_wf_insert[OF _ that(1)] assms have "bills_wf conn1" by (simp add: wf_state_def)
    moreover from insert_bill_frame[OF that(1)] have "cycles conn1 = cycles (db s)" by simp
    moreover from summaries_ok_insert[OF _ that(1,2)] assms have "summaries_ok conn1"
      by (simp add: wf_state_def)
    ultimately show ?thesis using bills_changed_wf[OF assms] that(3) by simp
  qed
  from record_carry_over_result[OF Pair] unchanged_wf[OF assms, of s'] inserted
  have "wf_state gid s'" by blast
  then show ?thesis by (simp add: Pair)
qed

lemma import_balance_wf:
  assumes "wf_state gid s"
  shows "wf_state gid (snd (import_balance gid u amt s))"
proof (cases "import_balance gid u amt s")
  case (Pair rep s')
  have inserted: "wf_state gid s'"
    if "insert_bill (db s) cid gid uid a d t = Inr conn1"
      "get_cycle_summary conn1 cid = Inr sm"
      "s' = (snd (get_active_cycle gid s))\<lparr>db := conn1\<rparr>" for cid uid a d t conn1 sm
  proof -
    from bills_wf_insert[OF _ that(1)] assms have "bills_wf conn1" by (simp add: wf_state_def)
    moreover from insert_bill_frame[OF that(1)] have "cycles conn1 = cycles (db s)" by simp
    moreover from summaries_ok_insert[OF _ that(1,2)] assms have "summaries_ok conn1"
      by (simp add: wf_state_def)
    ultimately show ?thesis using bills_changed_wf[OF assms] that(3) by simp
  qed
  from import_balance_result[OF Pair] unchanged_wf[OF assms, of s'] inserted
  have "wf_state gid s'" by blast
  then show ?thesis by (simp add: Pair)
qed

lemma undo_last_wf:
  assumes "wf_state gid s"
  shows "wf_state gid (snd (undo_last gid u s))"
proof (cases "undo_last gid u s")
  case (Pair rep s')
  have deleted: "wf_state gid s'"
    if "order_by_bill_id_desc (cycle_bills (db s) cid) = b # rest"
      "s' = (snd (get_active_cycle gid s))
        \<lparr>db := (db s)\<lparr>bills := filter (\<lambda>x. bill_id x \<noteq> bill_id b) (bills (db s))\<rparr>\<rparr>"
    for cid b rest
  proof -
    let ?conn1 = "(db s)\<lparr>bills := filter (\<lambda>x. bill_id x \<noteq> bill_id b) (bills (db s))\<rparr>"
    from assms have w: "summaries_ok (db s)" "bills_wf (db s)" by (simp_all add: wf_state_def)
    from bills_wf_filter[OF w(2)] have "bills_wf ?conn1" .
    moreover from summaries_ok_delete(1)[OF w that(1)] have "summaries_ok ?conn1" .
    ultimately show ?thesis using bills_changed_wf[OF assms, of ?conn1] that(2) by simp
  qed
  from undo_last_result[OF Pair] unchanged_wf[OF assms, of s'] deleted
  have "wf_state gid s'" by blast
  then show ?thesis by (simp add: Pair)
qed

text \<open>Open: the update leaves no active cycle of the group, the insert adds one.\<close>

lemma deactivated_none_active:
  "filter (\<lambda>c. c_group_id c = gid \<and> is_active c)
     (map (\<lambda>c. if c_group_id c = gid then c\<lparr>is_active := False\<rparr> else c) cs) = []"
  by (induction cs) auto

lemma list_all_ids_map:
  "(\<And>c. P (f c) = P c) \<Longrightarrow> list_all P (map f cs) = list_all P cs"
  by (induction cs) auto

lemma open_cycle_opened:
  assumes "authorized u" "\<not> truthy (fst (get_active_cycle gid s))"
  shows "snd (open_cycle gid u s) =
      s\<lparr>db := (db s)\<lparr>cycles :=
              map (\<lambda>c. if c_group_id c = gid then c\<lparr>is_active := False\<rparr> else c)
                (cycles (db s)) @
              [\<lparr>cycle_id = Suc (cycles_seq (db s)), c_group_id = gid,
                start_time = clock u 0, end_time = None, is_active = True\<rparr>],
            cycles_seq := Suc (cycles_seq (db s))\<rparr>,
       bot_data := None\<rparr>"
    and "\<exists>offer. fst (open_cycle gid u s) = Cycle_opened offer"
proof -
  obtain r s1 where g: "get_active_cycle gid s = (r, s1)" "db s1 = db s"
    by (cases rule: get_active_cycle_cases[of gid s])
  from get_active_cycle_state[of gid s] g(1) obtain b where b: "s1 = s\<lparr>bot_data := b\<rparr>"
    by auto
  from assms g b show "snd (open_cycle gid u s) =
      s\<lparr>db := (db s)\<lparr>cycles :=
              map (\<lambda>c. if c_group_id c = gid then c\<lparr>is_active := False\<rparr> else c)
                (cycles (db s)) @
              [\<lparr>cycle_id = Suc (cycles_seq (db s)), c_group_id = gid,
                start_time = clock u 0, end_time = None, is_active = True\<rparr>],
            cycles_seq := Suc (cycles_seq (db s))\<rparr>,
       bot_data := None\<rparr>"
    by (simp add: open_cycle_def Let_def)
  from assms g show "\<exists>offer. fst (open_cycle gid u s) = Cycle_opened offer"
    by (simp add: open_cycle_def Let_def)
qed

lemma open_cycle_refused:
  "\<not> authorized u \<Longrightarrow> open_cycle gid u s = (No_permission, s)"
  "authorized u \<Longrightarrow> truthy (fst (get_active_cycle gid s)) \<Longrightarrow>
     open_cycle gid u s = (AlreadyActive, snd (get_active_cycle gid s))"
  by (cases "get_active_cycle gid s"; simp add: open_cycle_def)+

lemma open_cycle_wf:
  assumes "wf_state gid s"
  shows "wf_state gid (snd (open_cycle gid u s))"
proof (cases "authorized u \<and> \<not> truthy (fst (get_active_cycle gid s))")
  case False
  then have "snd (open_cycle gid u s) = s
      \<or> snd (open_cycle gid u s) = snd (get_active_cycle gid s)"
    using open_cycle_refused[of u gid s] by (cases "authorized u") simp_all
  with unchanged_wf[OF assms, of "snd (open_cycle gid u s)"] show ?thesis by auto
next
  case True
  let ?s' = "snd (open_cycle gid u s)"
  from True open_cycle_opened(1)[of u gid s]
  have s': "?s' =
      s\<lparr>db := (db s)\<lparr>cycles :=
              map (\<lambda>c. if c_group_id c = gid then c\<lparr>is_active := False\<rparr> else c)
                (cycles (db s)) @
              [\<lparr>cycle_id = Suc (cycles_seq (db s)), c_group_id = gid,
                start_time = clock u 0, end_time = None, is_active = True\<rparr>],
            cycles_seq := Suc (cycles_seq (db s))\<rparr>,
       bot_data := None\<rparr>"
    by simp
  have "active_count (db ?s') gid = 1"
    unfolding s' by (simp add: active_count_def active_cycles_def deactivated_none_active)
  moreover have "ids_positive ?s'"
    using assms unfolding s'
    by (simp add: wf_state_def inv_cycles_def ids_positive_def list_all_ids_map)
  moreover have "cache_coherent gid ?s'" unfolding s' by (simp add: cache_coherent_def)
  moreover have "bills_wf (db ?s')"
    using assms unfolding s' by (simp add: wf_state_def bills_wf_def)
  moreover have "summaries_ok (db ?s')"
    using assms unfolding s'
    by (simp add: wf_state_def summaries_ok_def get_cycle_summary_def cycle_bills_def)
  ultimately show ?thesis by (simp add: wf_state_def inv_cycles_def)
qed

text \<open>Close: the transaction only switches cycles off.\<close>

lemma switched_off_active:
  "length (filter (\<lambda>c. c_group_id c = gid \<and> is_active c)
     (map (\<lambda>c. if cycle_id c = cid then c\<lparr>is_active := False, end_time := e\<rparr> else c) cs))
   \<le> length (filter (\<lambda>c. c_group_id c = gid \<and> is_active c) cs)"
  by (induction cs) auto

lemma close_transaction_cycles:
  "close_transaction u gid cid net conn = Inr conn1 \<Longrightarrow>
     cycles conn1 =
       map (\<lambda>c. if cycle_id c = cid
                 then c\<lparr>is_active := False, end_time := Some (clock u 0)\<rparr> else c)
         (cycles conn)
     \<and> bills conn1 = bills conn \<and> bills_seq conn1 = bills_seq conn"
  by (auto simp: close_transaction_def insert_previous_balance_def Let_def
      split: if_splits sum.splits)

lemma close_transaction_inv:
  assumes "close_transaction u gid cid net conn = Inr conn1"
    and "length (active_cycles conn gid) \<le> 1"
    and "list_all (\<lambda>c. cycle_id c \<noteq> 0) (cycles conn)"
  shows "length (active_cycles conn1 gid) \<le> 1
     \<and> list_all (\<lambda>c. cycle_id c \<noteq> 0) (cycles conn1)"
proof -
  from close_transaction_cycles[OF assms(1)]
  have c: "cycles conn1 =
      map (\<lambda>c. if cycle_id c = cid
                then c\<lparr>is_active := False, end_time := Some (clock u 0)\<rparr> else c)
        (cycles conn)"
    by simp
  have "length (active_cycles conn1 gid) \<le> length (active_cycles conn gid)"
    unfolding active_cycles_def c by (rule switched_off_active)
  moreover have "list_all (\<lambda>c. cycle_id c \<noteq> 0) (cycles conn1)"
    unfolding c using assms(3) by (simp add: list_all_ids_map)
  ultimately show ?thesis using assms(2) by simp
qed

text \<open>The two ways a close ends: without a change of the database, or with the
  committed transaction and an empty cache.\<close>

lemma close_cycle_result:
  assumes "close_cycle gid u s = (rep, s')"
  shows "(db s' = db s \<and> (s' = s \<or> s' = snd (get_active_cycle gid s))
           \<and> (\<forall>sm. rep \<noteq> Cycle_closed sm))
     \<or> (\<exists>cid sm conn1. fst (get_active_cycle gid s) = Some cid \<and> cid \<noteq> 0
           \<and> authorized u \<and> \<not> storage_fault u Begin_transaction
           \<and> get_cycle_summary (db s) cid = Inr sm
           \<and> close_transaction u gid cid (net_balance sm) (db s) = Inr conn1
           \<and> rep = Cycle_closed sm \<and> s' = s\<lparr>db := conn1, bot_data := None\<rparr>)"
proof (cases rule: get_active_cycle_cases[of gid s])
  case (1 r s1)
  from get_active_cycle_state[of gid s] 1(1) obtain b where b: "s1 = s\<lparr>bot_data := b\<rparr>"
    by auto
  from assms 1 show ?thesis
    unfolding close_cycle_def b
    by (auto split: if_splits option.splits sum.splits)
qed

lemma close_cycle_wf:
  assumes "wf_state gid s"
  shows "wf_state gid (snd (close_cycle gid u s))"
proof (cases "close_cycle gid u s")
  case (Pair rep s')
  have committed: "wf_state gid s'"
    if "close_transaction u gid cid net (db s) = Inr conn1"
      "s' = s\<lparr>db := conn1, bot_data := None\<rparr>" for cid net conn1
  proof -
    from close_transaction_inv[OF that(1)] assms
    have "length (active_cycles conn1 gid) \<le> 1
      \<and> list_all (\<lambda>c. cycle_id c \<noteq> 0) (cycles conn1)"
      by (simp add: wf_state_def inv_cycles_def active_count_def ids_positive_def)
    moreover from close_transaction_cycles[OF that(1)] assms have "bills_wf conn1"
      by (simp add: wf_state_def bills_wf_def)
    moreover from close_transaction_cycles[OF that(1)] assms have "summaries_ok conn1"
      by (simp add: wf_state_def summaries_ok_def get_cycle_summary_def cycle_bills_def)
    ultimately show ?thesis
      unfolding that(2)
      by (simp add: wf_state_def inv_cycles_def active_count_def ids_positive_def
          cache_coherent_def)
  qed
  from close_cycle_result[OF Pair] unchanged_wf[OF assms, of s'] committed
  have "wf_state gid s'" by blast
  then show ?thesis by (simp add: Pair)
qed

lemma command_branch_wf:
  assumes "wf_state gid s"
  shows "wf_state gid (snd (command_branch gid u c s))"
proof (cases c)
  case (Other_command t)
  show ?thesis
  proof (cases t)
    case None
    with assms Other_command show ?thesis by simp
  next
    case (Some target_user)
    show ?thesis
    proof (cases "record_user target_user s")
      case (Inl e)
      with assms Other_command Some show ?thesis by simp
    next
      case (Inr s1)
      with record_user_wf[OF Inr, of gid] assms Other_command Some show ?thesis by simp
    qed
  qed
qed (simp_all add: assms open_cycle_wf close_cycle_wf add_entry_wf record_carry_over_wf
       undo_last_wf)

lemma handle_command_wf:
  assumes "wf_state gid s"
  shows "wf_state gid (snd (handle_command gid u c s))"
proof (cases "record_user u s")
  case (Inl e)
  with assms show ?thesis by (simp add: handle_command_def)
next
  case (Inr s0)
  from record_user_wf[OF Inr, of gid] assms have "wf_state gid s0" by simp
  from command_branch_wf[OF this, of u c] Inr show ?thesis
    by (simp add: handle_command_def)
qed

lemma step_wf: "wf_state gid s \<Longrightarrow> wf_state gid (step gid e s)"
proof (cases e)
  case (Command u c)
  assume "wf_state gid s"
  then show ?thesis
    unfolding Command by (simp add: handle_command_wf)
next
  case (Callback u c)
  assume "wf_state gid s"
  then show ?thesis
    unfolding Callback
    by (cases c) (auto simp: import_balance_wf split: sum.splits)
qed

lemma run_wf: "wf_state gid s \<Longrightarrow> wf_state gid (run gid es s)"
  by (induction es arbitrary: s) (auto simp: step_wf)

lemma init_wf: "wf_state gid init_state"
  by (simp add: wf_state_def inv_cycles_def active_count_def active_cycles_def
      ids_positive_def cache_coherent_def bills_wf_def summaries_ok_def
      get_cycle_summary_def cycle_bills_def sql_sum_def init_state_def init_group_db_def)

lemma reachable_wf: "wf_state gid (run gid es init_state)"
  by (rule run_wf[OF init_wf])

section \<open>The preamble of \<open>handle_command\<close>\<close>

lemma handle_command_raised:
  "record_user u s = Inl e \<Longrightarrow> handle_command gid u c s = (Uncaught e, s)"
  by (simp add: handle_command_def)

lemma handle_command_branch:
  "record_user u s = Inr s0 \<Longrightarrow> handle_command gid u c s = command_branch gid u c s0"
  by (simp add: handle_command_def)

text \<open>The operator is recorded by its first command; from then on \<open>record_user\<close> finds
  its row and rewrites the same name. The newcomer's name is taken.\<close>

lemma record_user_operator:
  "users s = [\<lparr>u_user_id = 42, u_username = [64, 111, 112]\<rparr>] \<Longrightarrow>
     record_user operator s = Inr s"
  "users s = [\<lparr>u_user_id = 42, u_username = [64, 111, 112]\<rparr>] \<Longrightarrow>
     record_user faulty_operator s = Inr s"
  "users s = [\<lparr>u_user_id = 42, u_username = [64, 111, 112]\<rparr>] \<Longrightarrow>
     record_user newcomer s = Inl IntegrityError"
  by (simp_all add: record_user_def operator_def faulty_operator_def newcomer_def
      utf8_encodable_def)

section \<open>At most one active cycle\<close>

lemma open_while_active:
  assumes "wf_state gid s" "active_count (db s) gid \<noteq> 0" "authorized u"
  shows "command_branch gid u Open_cycle s = (AlreadyActive, snd (get_active_cycle gid s))"
proof -
  from assms(2) obtain c cs where ac: "active_cycles (db s) gid = c # cs"
    by (cases "active_cycles (db s) gid") (auto simp: active_count_def)
  from assms(1) have "cache_coherent gid s" "inv_cycles gid s" by (simp_all add: wf_state_def)
  from get_active_cycle_some[OF this ac]
  have "truthy (fst (get_active_cycle gid s))" by simp
  with assms(3) show ?thesis by (simp add: open_cycle_refused)
qed

text \<open>
  Claim C2. After any sequence of commands and callbacks of a group (open and close
  among them), started on the fresh database, at most one cycle of the group is active.
  An open by an authorized user while a cycle is active answers \<open>AlreadyActive\<close>
  whenever \<open>record_user\<close> returns for the sender; when \<open>record_user\<close> raises (the
  sender's username is stored under another id), the exception leaves the handler
  before the open branch. Either way the ledger tables, so the cycles table, are left
  as they were.
\<close>

theorem at_most_one_active_cycle:
  "active_count (db (run gid es init_state)) gid \<le> 1
   \<and> (\<forall>u. authorized u \<longrightarrow> active_count (db (run gid es init_state)) gid = 1 \<longrightarrow>
          (\<forall>s0. record_user u (run gid es init_state) = Inr s0 \<longrightarrow>
             fst (handle_command gid u Open_cycle (run gid es init_state)) = AlreadyActive)
          \<and> (\<forall>e. record_user u (run gid es init_state) = Inl e \<longrightarrow>
             fst (handle_command gid u Open_cycle (run gid es init_state)) = Uncaught e)
          \<and> db (snd (handle_command gid u Open_cycle (run gid es init_state)))
              = db (run gid es init_state))"
proof -
  let ?s = "run gid es init_state"
  have wf: "wf_state gid ?s" by (rule reachable_wf)
  then have le: "active_count (db ?s) gid \<le> 1"
    by (simp add: wf_state_def inv_cycles_def)
  have refused: "fst (handle_command gid u Open_cycle ?s) = AlreadyActive
      \<and> db (snd (handle_command gid u Open_cycle ?s)) = db ?s"
    if "authorized u" "active_count (db ?s) gid = 1" "record_user u ?s = Inr s0" for u s0
  proof -
    from record_user_frame[OF that(3)] have f: "db s0 = db ?s" by simp
    from record_user_wf[OF that(3), of gid] wf have "wf_state gid s0" by simp
    from open_while_active[OF this _ that(1)] that(2) f
    have "command_branch gid u Open_cycle s0 = (AlreadyActive, snd (get_active_cycle gid s0))"
      by simp
    with handle_command_branch[OF that(3), of gid Open_cycle] f show ?thesis by simp
  qed
  have raised: "fst (handle_command gid u Open_cycle ?s) = Uncaught e
      \<and> db (snd (handle_command gid u Open_cycle ?s)) = db ?s"
    if "record_user u ?s = Inl e" for u e
    using handle_command_raised[OF that, of gid Open_cycle] by simp
  have "db (snd (handle_command gid u Open_cycle ?s)) = db ?s"
    if "authorized u" "active_count (db ?s) gid = 1" for u
    using refused[OF that] raised[of u] by (cases "record_user u ?s") auto
  with le refused raised show ?thesis by blast
qed

theorem at_most_one_active_cycle_witness:
  "active_count (db carried_state) 7 = 1
   \<and> authorized operator
   \<and> record_user operator carried_state = Inr carried_state
   \<and> fst (handle_command 7 operator Open_cycle carried_state) = AlreadyActive
   \<and> db (snd (handle_command 7 operator Open_cycle carried_state)) = db carried_state
   \<and> authorized newcomer
   \<and> record_user newcomer carried_state = Inl IntegrityError
   \<and> fst (handle_command 7 newcomer Open_cycle carried_state) = Uncaught IntegrityError
   \<and> db (snd (handle_command 7 newcomer Open_cycle carried_state)) = db carried_state"
proof -
  have one: "active_count (db carried_state) 7 = 1"
    by (simp add: carried_state_eq active_count_def active_cycles_def)
  have auth: "authorized operator" "authorized newcomer"
    by (simp_all add: operator_def newcomer_def)
  have us: "users carried_state = [\<lparr>u_user_id = 42, u_username = [64, 111, 112]\<rparr>]"
    by (simp add: carried_state_eq)
  note rec = record_user_operator(1)[OF us] record_user_operator(3)[OF us]
  from at_most_one_active_cycle[of 7
      "[Command operator Open_cycle, Command operator (Entry (Some 900) []),
        Command operator Close_cycle, Command operator Open_cycle,
        Command operator (Entry (Some 100) [])]"]
    one auth rec
  show ?thesis unfolding carried_state_def[symmetric] by blast
qed

section \<open>Close: the carried balance and the rollback\<close>

lemma close_transaction_balances:
  "close_transaction u gid cid net conn = Inr conn1 \<Longrightarrow>
     previous_balances conn1 =
       filter (\<lambda>p. pb_group_id p \<noteq> gid) (previous_balances conn) @
       (if net \<noteq> 0
        then [\<lparr>pb_id = Suc (previous_balances_seq conn), pb_group_id = gid,
               pb_amount = net, pb_created_at = clock u 1\<rparr>]
        else [])"
  by (auto simp: close_transaction_def insert_previous_balance_def Let_def
      split: if_splits sum.splits)

lemma close_transaction_fails_iff:
  "(\<exists>e. close_transaction u gid cid net conn = Inl e) \<longleftrightarrow>
     close_step_fails u net Update_cycles \<or> close_step_fails u net Delete_previous
     \<or> close_step_fails u net Insert_previous \<or> close_step_fails u net Commit"
  by (auto simp: close_transaction_def insert_previous_balance_def Let_def
      split: if_splits sum.splits)

lemma filter_group_after_close:
  "filter (\<lambda>p. pb_group_id p = gid) (filter (\<lambda>p. pb_group_id p \<noteq> gid) ps @ new) =
     filter (\<lambda>p. pb_group_id p = gid) new"
  by (induction ps) auto

text \<open>
  Claim C3. When a close succeeds, the rows of the group in the stored balances are
  replaced: none is left when the computed net balance is 0, and exactly one, holding
  the net balance, otherwise; the stored balance then reads as the net balance (0 when
  there is no row). The net balance is the one of the summary of the cycle that was
  active.
\<close>

theorem close_replaces_carried_balance:
  assumes "handle_command gid u Close_cycle s = (Cycle_closed sm, s')"
  shows "filter (\<lambda>p. pb_group_id p = gid) (previous_balances (db s')) =
           (if net_balance sm \<noteq> 0
            then [\<lparr>pb_id = Suc (previous_balances_seq (db s)), pb_group_id = gid,
                   pb_amount = net_balance sm, pb_created_at = clock u 1\<rparr>]
            else [])
     \<and> get_previous_balance (db s') gid = net_balance sm
     \<and> (\<exists>cid. fst (get_active_cycle gid s) = Some cid
            \<and> get_cycle_summary (db s) cid = Inr sm)"
proof -
  from assms obtain s0 where rec: "record_user u s = Inr s0"
    and "close_cycle gid u s0 = (Cycle_closed sm, s')"
    by (cases "record_user u s") (simp_all add: handle_command_def)
  from close_cycle_result[OF this(2)]
  obtain cid conn1 where cid0: "fst (get_active_cycle gid s0) = Some cid"
    and sm0: "get_cycle_summary (db s0) cid = Inr sm"
    and tx0: "close_transaction u gid cid (net_balance sm) (db s0) = Inr conn1"
    and s': "s' = s0\<lparr>db := conn1, bot_data := None\<rparr>"
    by auto
  from record_user_frame[OF rec] have f: "db s0 = db s" "bot_data s0 = bot_data s"
    by simp_all
  from cid0 f have cid: "fst (get_active_cycle gid s) = Some cid"
    by (simp add: get_active_cycle_fst_cong[of s0 s])
  from sm0 tx0 f have sm: "get_cycle_summary (db s) cid = Inr sm"
    and tx: "close_transaction u gid cid (net_balance sm) (db s) = Inr conn1"
    by simp_all
  have rows: "filter (\<lambda>p. pb_group_id p = gid) (previous_balances (db s')) =
           (if net_balance sm \<noteq> 0
            then [\<lparr>pb_id = Suc (previous_balances_seq (db s)), pb_group_id = gid,
                   pb_amount = net_balance sm, pb_created_at = clock u 1\<rparr>]
            else [])"
    unfolding s' using close_transaction_balances[OF tx]
    by (simp add: filter_group_after_close)
  then have "get_previous_balance (db s') gid = net_balance sm"
    by (simp add: get_previous_balance_def)
  with rows cid sm show ?thesis by blast
qed

lemma ledger_a_eq:
  "ledger_a =
     \<lparr>db = \<lparr>cycles =
              [\<lparr>cycle_id = 1, c_group_id = 7, start_time = ''2025-01-01T09:00:00'',
                end_time = None, is_active = True\<rparr>],
            cycles_seq = 1,
            bills =
              [\<lparr>bill_id = 1, b_cycle_id = 1, b_group_id = 7, b_user_id = 42, amount = 1000,
                description = [32], created_at = ''2025-01-01T09:00:00''\<rparr>,
               \<lparr>bill_id = 2, b_cycle_id = 1, b_group_id = 7, b_user_id = 42,
                amount = - 300, description = [32], created_at = ''2025-01-01T09:00:00''\<rparr>,
               \<lparr>bill_id = 3, b_cycle_id = 1, b_group_id = 7, b_user_id = 42, amount = 200,
                description = [91, 32467, 20313, 93, 32, 19978, 26399, 32467, 20313],
                created_at = ''2025-01-01T09:00:00''\<rparr>],
            bills_seq = 3,
            previous_balances = [],
            previous_balances_seq = 0\<rparr>,
      bot_data = Some 1,
      users = [\<lparr>u_user_id = 42, u_username = [64, 111, 112]\<rparr>]\<rparr>"
  by (simp add: ledger_a_def handler_defs start_defs)

lemma ledger_a_close:
  "handle_command 7 operator Close_cycle ledger_a =
     (Cycle_closed
        \<lparr>total_deposits = 1000, deposit_count = 1, total_withdrawals = 300,
         withdrawal_count = 1, previous_balance = 200, net_balance = 900,
         deposits = [(1000, ''2025-01-01T09:00:00'')],
         withdrawals = [(- 300, ''2025-01-01T09:00:00'')]\<rparr>,
      \<lparr>db = (db ledger_a)
         \<lparr>cycles :=
            [\<lparr>cycle_id = 1, c_group_id = 7, start_time = ''2025-01-01T09:00:00'',
              end_time = Some ''2025-01-01T09:00:00'', is_active = False\<rparr>],
          previous_balances :=
            [\<lparr>pb_id = 1, pb_group_id = 7, pb_amount = 900,
              pb_created_at = ''2025-01-01T09:00:00''\<rparr>],
          previous_balances_seq := 1\<rparr>,
       bot_data = None,
       users = [\<lparr>u_user_id = 42, u_username = [64, 111, 112]\<rparr>]\<rparr>)"
  by (simp add: ledger_a_eq handler_defs operator_def)

theorem close_replaces_carried_balance_witness:
  "\<exists>sm s'. handle_command 7 operator Close_cycle ledger_a = (Cycle_closed sm, s')
     \<and> net_balance sm = 900
     \<and> filter (\<lambda>p. pb_group_id p = 7) (previous_balances (db s')) =
          [\<lparr>pb_id = 1, pb_group_id = 7, pb_amount = 900,
            pb_created_at = ''2025-01-01T09:00:00''\<rparr>]
     \<and> get_previous_balance (db s') 7 = 900"
proof -
  let ?sm = "\<lparr>total_deposits = 1000, deposit_count = 1, total_withdrawals = 300,
         withdrawal_count = 1, previous_balance = 200, net_balance = 900,
         deposits = [(1000, ''2025-01-01T09:00:00'')],
         withdrawals = [(- 300, ''2025-01-01T09:00:00'')]\<rparr>"
  from ledger_a_close obtain s' where
    c: "handle_command 7 operator Close_cycle ledger_a = (Cycle_closed ?sm, s')"
    by blast
  from close_replaces_carried_balance[OF c]
  have "filter (\<lambda>p. pb_group_id p = 7) (previous_balances (db s')) =
          [\<lparr>pb_id = 1, pb_group_id = 7, pb_amount = 900,
            pb_created_at = ''2025-01-01T09:00:00''\<rparr>]
     \<and> get_previous_balance (db s') 7 = 900"
    by (simp add: ledger_a_eq operator_def)
  with c show ?thesis by force
qed

lemma close_failure_branch:
  assumes "authorized u"
    and "get_active_cycle gid s = (Some cid, s1)"
    and "cid \<noteq> 0"
  shows "(\<forall>e. get_cycle_summary (db s) cid = Inl e \<longrightarrow>
            command_branch gid u Close_cycle s = (Uncaught e, s1))
     \<and> (\<forall>sm. get_cycle_summary (db s) cid = Inr sm \<longrightarrow>
            close_step_fails u (net_balance sm) Begin_transaction \<longrightarrow>
            command_branch gid u Close_cycle s = (Uncaught OperationalError, s1))
     \<and> (\<forall>sm. get_cycle_summary (db s) cid = Inr sm \<longrightarrow>
            \<not> close_step_fails u (net_balance sm) Begin_transaction \<longrightarrow>
            (close_step_fails u (net_balance sm) Update_cycles
             \<or> close_step_fails u (net_balance sm) Delete_previous
             \<or> close_step_fails u (net_balance sm) Insert_previous
             \<or> close_step_fails u (net_balance sm) Commit) \<longrightarrow>
            command_branch gid u Close_cycle s = (Close_failed, s1))
     \<and> db s1 = db s \<and> bot_data s1 = Some cid"
proof -
  have s1: "db s1 = db s" using get_active_cycle_db[of gid s] assms(2) by simp
  have cache: "bot_data s1 = Some cid"
    using assms(2,3)
    by (auto simp: get_active_cycle_def split: option.splits list.splits if_splits)
  have a: "command_branch gid u Close_cycle s = (Uncaught e, s1)"
    if "get_cycle_summary (db s) cid = Inl e" for e
    using that assms s1 by (simp add: close_cycle_def)
  have b: "command_branch gid u Close_cycle s = (Uncaught OperationalError, s1)"
    if "get_cycle_summary (db s) cid = Inr sm"
      "close_step_fails u (net_balance sm) Begin_transaction" for sm
    using that assms s1 by (simp add: close_cycle_def)
  have c: "command_branch gid u Close_cycle s = (Close_failed, s1)"
    if "get_cycle_summary (db s) cid = Inr sm"
      "\<not> close_step_fails u (net_balance sm) Begin_transaction"
      "close_step_fails u (net_balance sm) Update_cycles
       \<or> close_step_fails u (net_balance sm) Delete_previous
       \<or> close_step_fails u (net_balance sm) Insert_previous
       \<or> close_step_fails u (net_balance sm) Commit" for sm
  proof -
    from that(3) close_transaction_fails_iff[of u gid cid "net_balance sm" "db s"]
    obtain e where "close_transaction u gid cid (net_balance sm) (db s) = Inl e" by blast
    with that(1,2) assms s1 show ?thesis by (simp add: close_cycle_def)
  qed
  from a b c s1 cache show ?thesis by blast
qed

text \<open>
  Claim C4. An authorized close of an active cycle in which a step fails changes
  nothing: when the summary cannot be computed or the transaction cannot begin, the
  exception leaves the handler and is reported by the error handler; when a statement
  of the transaction or its commit fails, the transaction is rolled back and the
  failure message is answered. In each case the ledger tables, so the cycle with its
  \<open>is_active\<close> and \<open>end_time\<close> and the stored balances, are as before, and the cache
  still names the cycle; the state is the one after the active-cycle lookup, with the
  sender recorded in the users table. The same holds when \<open>record_user\<close> raises before
  the branch: the exception leaves the handler and the state is untouched.
\<close>

theorem close_failure_rolls_back:
  assumes "authorized u"
    and "get_active_cycle gid s = (Some cid, s1)"
    and "cid \<noteq> 0"
  shows "(\<forall>e. record_user u s = Inl e \<longrightarrow>
            handle_command gid u Close_cycle s = (Uncaught e, s))
     \<and> (\<forall>s0. record_user u s = Inr s0 \<longrightarrow>
          (\<forall>e. get_cycle_summary (db s) cid = Inl e \<longrightarrow>
             handle_command gid u Close_cycle s = (Uncaught e, s1\<lparr>users := users s0\<rparr>))
        \<and> (\<forall>sm. get_cycle_summary (db s) cid = Inr sm \<longrightarrow>
             close_step_fails u (net_balance sm) Begin_transaction \<longrightarrow>
             handle_command gid u Close_cycle s
               = (Uncaught OperationalError, s1\<lparr>users := users s0\<rparr>))
        \<and> (\<forall>sm. get_cycle_summary (db s) cid = Inr sm \<longrightarrow>
             \<not> close_step_fails u (net_balance sm) Begin_transaction \<longrightarrow>
             (close_step_fails u (net_balance sm) Update_cycles
              \<or> close_step_fails u (net_balance sm) Delete_previous
              \<or> close_step_fails u (net_balance sm) Insert_previous
              \<or> close_step_fails u (net_balance sm) Commit) \<longrightarrow>
             handle_command gid u Close_cycle s = (Close_failed, s1\<lparr>users := users s0\<rparr>)))
     \<and> db s1 = db s \<and> bot_data s1 = Some cid"
proof -
  have raised: "handle_command gid u Close_cycle s = (Uncaught e, s)"
    if "record_user u s = Inl e" for e
    using that by (rule handle_command_raised)
  have branch: "(\<forall>e. get_cycle_summary (db s) cid = Inl e \<longrightarrow>
             handle_command gid u Close_cycle s = (Uncaught e, s1\<lparr>users := users s0\<rparr>))
        \<and> (\<forall>sm. get_cycle_summary (db s) cid = Inr sm \<longrightarrow>
             close_step_fails u (net_balance sm) Begin_transaction \<longrightarrow>
             handle_command gid u Close_cycle s
               = (Uncaught OperationalError, s1\<lparr>users := users s0\<rparr>))
        \<and> (\<forall>sm. get_cycle_summary (db s) cid = Inr sm \<longrightarrow>
             \<not> close_step_fails u (net_balance sm) Begin_transaction \<longrightarrow>
             (close_step_fails u (net_balance sm) Update_cycles
              \<or> close_step_fails u (net_balance sm) Delete_previous
              \<or> close_step_fails u (net_balance sm) Insert_previous
              \<or> close_step_fails u (net_balance sm) Commit) \<longrightarrow>
             handle_command gid u Close_cycle s = (Close_failed, s1\<lparr>users := users s0\<rparr>))"
    if rec: "record_user u s = Inr s0" for s0
  proof -
    from record_user_frame[OF rec] have f: "db s0 = db s" "s0 = s\<lparr>users := users s0\<rparr>"
      by simp_all
    from f(2) get_active_cycle_users_update[where gid = gid and s = s and x = "users s0"] assms(2)
    have g: "get_active_cycle gid s0 = (Some cid, s1\<lparr>users := users s0\<rparr>)" by simp
    from close_failure_branch[OF assms(1) g assms(3)]
    show ?thesis
      unfolding handle_command_branch[OF rec] f(1) by blast
  qed
  from close_failure_branch[OF assms]
  have "db s1 = db s \<and> bot_data s1 = Some cid" by blast
  with raised branch show ?thesis by blast
qed

lemma overflow_state_eq:
  "overflow_state =
     \<lparr>db = \<lparr>cycles =
              [\<lparr>cycle_id = 1, c_group_id = 7, start_time = ''2025-01-01T09:00:00'',
                end_time = None, is_active = True\<rparr>],
            cycles_seq = 1,
            bills =
              [\<lparr>bill_id = 1, b_cycle_id = 1, b_group_id = 7, b_user_id = 42,
                amount = 9223372036854775807, description = [32],
                created_at = ''2025-01-01T09:00:00''\<rparr>,
               \<lparr>bill_id = 2, b_cycle_id = 1, b_group_id = 7, b_user_id = 42,
                amount = 9223372036854775807,
                description = [91, 32467, 20313, 93, 32, 19978, 26399, 32467, 20313],
                created_at = ''2025-01-01T09:00:00''\<rparr>],
            bills_seq = 2,
            previous_balances = [],
            previous_balances_seq = 0\<rparr>,
      bot_data = Some 1,
      users = [\<lparr>u_user_id = 42, u_username = [64, 111, 112]\<rparr>]\<rparr>"
  by (simp add: overflow_state_def handler_defs start_defs)

theorem close_failure_rolls_back_witness:
  "authorized faulty_operator
   \<and> record_user faulty_operator ledger_a = Inr ledger_a
   \<and> get_active_cycle 7 ledger_a = (Some 1, ledger_a)
   \<and> map_sum id net_balance (get_cycle_summary (db ledger_a) 1) = Inr 900
   \<and> close_step_fails faulty_operator 900 Delete_previous
   \<and> handle_command 7 faulty_operator Close_cycle ledger_a = (Close_failed, ledger_a)
   \<and> map is_active (cycles (db ledger_a)) = [True]
   \<and> map end_time (cycles (db ledger_a)) = [None]"
proof -
  have auth: "authorized faulty_operator" by (simp add: faulty_operator_def operator_def)
  have act: "get_active_cycle 7 ledger_a = (Some 1, ledger_a)"
    by (simp add: ledger_a_eq get_active_cycle_def)
  have fails: "close_step_fails faulty_operator 900 Delete_previous"
    "\<not> close_step_fails faulty_operator 900 Begin_transaction"
    by (simp_all add: faulty_operator_def)
  have sm: "get_cycle_summary (db ledger_a) 1 =
     Inr \<lparr>total_deposits = 1000, deposit_count = 1, total_withdrawals = 300,
          withdrawal_count = 1, previous_balance = 200, net_balance = 900,
          deposits = [(1000, ''2025-01-01T09:00:00'')],
          withdrawals = [(- 300, ''2025-01-01T09:00:00'')]\<rparr>"
    by (rule ledger_a_summary)
  have us: "users ledger_a = [\<lparr>u_user_id = 42, u_username = [64, 111, 112]\<rparr>]"
    by (simp add: ledger_a_eq)
  note rec = record_user_operator(2)[OF us]
  have "handle_command 7 faulty_operator Close_cycle ledger_a = (Close_failed, ledger_a)"
    using close_failure_rolls_back[OF auth act] sm fails rec by simp
  moreover have "map is_active (cycles (db ledger_a)) = [True]"
    "map end_time (cycles (db ledger_a)) = [None]"
    by (simp_all add: ledger_a_eq)
  ultimately show ?thesis using auth act fails sm rec by simp
qed

text \<open>A close that fails without any storage fault: the net balance \<open>2 ^ 64 - 2\<close> of
  the cycle cannot be stored, the insert raises and the close is rolled back.\<close>

lemma close_overflow_rolls_back:
  "handle_command 7 operator Close_cycle overflow_state = (Close_failed, overflow_state)"
  by (simp add: overflow_state_eq handler_defs operator_def)


text \<open>A close with net balance 0 deletes the stored row of 900 and inserts none.\<close>

lemma close_zero_clears:
  "previous_balances (db settled_state) =
     [\<lparr>pb_id = 1, pb_group_id = 7, pb_amount = 900, pb_created_at = ''2025-01-01T09:00:00''\<rparr>]
   \<and> (case handle_command 7 operator Close_cycle settled_state of
        (Cycle_closed sm, s') \<Rightarrow>
          net_balance sm = 0 \<and> previous_balances (db s') = []
          \<and> get_previous_balance (db s') 7 = 0
      | _ \<Rightarrow> False)"
  by (simp add: settled_state_def carried_state_eq handler_defs operator_def)

section \<open>Adding an entry\<close>

lemma startswith_take:
  "length p \<le> n \<Longrightarrow> startswith (take n s) p = startswith s p"
proof (induction s p arbitrary: n rule: startswith.induct)
  case (1 s)
  then show ?case by simp
next
  case (2 p ps)
  then show ?case by simp
next
  case (3 c cs p ps)
  then show ?case by (cases n) simp_all
qed

text \<open>The stored note of an entry command carries the reserved prefix exactly when
  the note the user typed does.\<close>

lemma like_carry_entry_description:
  "like_carry (entry_description args) = like_carry (join_space args)"
proof (cases "join_space args = []")
  case True
  then show ?thesis by (simp add: entry_description_def like_carry_def carry_tag_def)
next
  case False
  then have "take 255 (join_space args) \<noteq> []" by simp
  then show ?thesis
    by (simp add: entry_description_def like_carry_def Let_def startswith_take carry_tag_def)
qed

lemma cycle_bills_insert:
  assumes "insert_bill conn cid gid uid amt d t = Inr conn1"
  shows "cycle_bills conn1 cid = cycle_bills conn cid @
      [\<lparr>bill_id = Suc (bills_seq conn), b_cycle_id = cid, b_group_id = gid,
        b_user_id = uid, amount = amt, description = d, created_at = t\<rparr>]"
  using insert_bill_frame[OF assms] by (simp add: cycle_bills_def)

lemma add_entry_succeeds:
  assumes "wf_state gid s" "authorized u" "active_cycles (db s) gid = [c]"
    and "sqlite_int amt" "utf8_encodable (entry_description args)"
    and "(\<Sum>b\<leftarrow>cycle_bills (db s) (cycle_id c). \<bar>amount b\<bar>) + \<bar>amt\<bar> < 2 ^ 63"
  shows "\<exists>sm. fst (add_entry gid u (Some amt) args s) = Entry_added sm"
proof -
  from assms(1) have w: "cache_coherent gid s" "inv_cycles gid s"
    by (simp_all add: wf_state_def)
  note g = get_active_cycle_some[OF w assms(3)]
  let ?conn1 = "(db s)\<lparr>bills := bills (db s) @
          [\<lparr>bill_id = Suc (bills_seq (db s)), b_cycle_id = cycle_id c, b_group_id = gid,
            b_user_id = user_id u, amount = amt, description = entry_description args,
            created_at = clock u 0\<rparr>],
          bills_seq := Suc (bills_seq (db s))\<rparr>"
  have ins: "insert_bill (db s) (cycle_id c) gid (user_id u) amt (entry_description args)
      (clock u 0) = Inr ?conn1"
    using assms(4,5) by (simp add: insert_bill_def)
  have "(\<Sum>b\<leftarrow>cycle_bills ?conn1 (cycle_id c). \<bar>amount b\<bar>) < 2 ^ 63"
    using assms(6) by (simp add: cycle_bills_insert[OF ins])
  from summary_returns[OF this] obtain sm where
    "get_cycle_summary ?conn1 (cycle_id c) = Inr sm" by blast
  with g(1,2) ins assms(2) show ?thesis
    by (simp add: add_entry_def)
qed

text \<open>The entry branch on a well-formed state.\<close>

lemma add_entry_branch:
  assumes "wf_state gid s"
  shows "(authorized u \<longrightarrow> active_cycles (db s) gid = [] \<longrightarrow>
            fst (add_entry gid u parsed args s) = NoActiveCycle)
     \<and> (authorized u \<longrightarrow> active_cycles (db s) gid \<noteq> [] \<longrightarrow>
            (parsed = None
             \<or> (\<exists>amt. parsed = Some amt \<and> sqlite_int amt
                   \<and> \<not> utf8_encodable (entry_description args))) \<longrightarrow>
            fst (add_entry gid u parsed args s) = InvalidAmount)
     \<and> ((\<forall>sm. fst (add_entry gid u parsed args s) \<noteq> Entry_added sm) \<longrightarrow>
            db (snd (add_entry gid u parsed args s)) = db s)
     \<and> (\<forall>sm. fst (add_entry gid u parsed args s) = Entry_added sm \<longrightarrow>
            (\<exists>c amt b. active_cycles (db s) gid = [c] \<and> parsed = Some amt
               \<and> b = \<lparr>bill_id = Suc (bills_seq (db s)), b_cycle_id = cycle_id c,
                      b_group_id = gid, b_user_id = user_id u, amount = amt,
                      description = entry_description args, created_at = clock u 0\<rparr>
               \<and> db (snd (add_entry gid u parsed args s)) =
                   (db s)\<lparr>bills := bills (db s) @ [b], bills_seq := Suc (bills_seq (db s))\<rparr>
               \<and> get_cycle_summary (db (snd (add_entry gid u parsed args s)))
                    (cycle_id c) = Inr sm
               \<and> (is_carry_over b \<longleftrightarrow> like_carry (join_space args))
               \<and> sqlite_int amt \<and> utf8_encodable (entry_description args)))
     \<and> (\<forall>c amt. authorized u \<longrightarrow> active_cycles (db s) gid = [c] \<longrightarrow> parsed = Some amt \<longrightarrow>
            sqlite_int amt \<longrightarrow> utf8_encodable (entry_description args) \<longrightarrow>
            (\<Sum>b\<leftarrow>cycle_bills (db s) (cycle_id c). \<bar>amount b\<bar>) + \<bar>amt\<bar> < 2 ^ 63 \<longrightarrow>
            (\<exists>sm. fst (add_entry gid u parsed args s) = Entry_added sm))"
proof (intro conjI allI impI)
  from assms have w: "cache_coherent gid s" "inv_cycles gid s"
    by (simp_all add: wf_state_def)
  obtain rep s' where r: "add_entry gid u parsed args s = (rep, s')"
    by (cases "add_entry gid u parsed args s")
  {
    assume "authorized u" "active_cycles (db s) gid = []"
    with get_active_cycle_none[OF w(1)]
    show "fst (add_entry gid u parsed args s) = NoActiveCycle"
      by (simp add: add_entry_def)
  }
  {
    assume a: "authorized u" "active_cycles (db s) gid \<noteq> []"
      "parsed = None
       \<or> (\<exists>amt. parsed = Some amt \<and> sqlite_int amt
             \<and> \<not> utf8_encodable (entry_description args))"
    then obtain c cs where "active_cycles (db s) gid = c # cs"
      by (cases "active_cycles (db s) gid") auto
    from get_active_cycle_some(1,2)[OF w this] a
    show "fst (add_entry gid u parsed args s) = InvalidAmount"
      by (auto simp: add_entry_def insert_bill_def entry_except_def)
  }
  {
    assume "\<forall>sm. fst (add_entry gid u parsed args s) \<noteq> Entry_added sm"
    with add_entry_result[OF r] r
    show "db (snd (add_entry gid u parsed args s)) = db s"
      by auto
  }
  {
    fix sm
    assume "fst (add_entry gid u parsed args s) = Entry_added sm"
    with add_entry_result[OF r] r
    obtain cid amt conn1 where
      cid: "fst (get_active_cycle gid s) = Some cid" and p: "parsed = Some amt"
      and ins: "insert_bill (db s) cid gid (user_id u) amt (entry_description args) (clock u 0)
               = Inr conn1"
      and sm: "get_cycle_summary conn1 cid = Inr sm"
      and s': "s' = (snd (get_active_cycle gid s))\<lparr>db := conn1\<rparr>"
      by auto
    from cid get_active_cycle_none[OF w(1)] obtain c cs where
      ac: "active_cycles (db s) gid = c # cs"
      by (cases "active_cycles (db s) gid") auto
    from get_active_cycle_some[OF w ac] cid have c: "cid = cycle_id c" "cs = []" by simp_all
    let ?b = "\<lparr>bill_id = Suc (bills_seq (db s)), b_cycle_id = cycle_id c,
                      b_group_id = gid, b_user_id = user_id u, amount = amt,
                      description = entry_description args, created_at = clock u 0\<rparr>"
    have "db (snd (add_entry gid u parsed args s)) =
        (db s)\<lparr>bills := bills (db s) @ [?b], bills_seq := Suc (bills_seq (db s))\<rparr>"
      using insert_bill_frame[OF ins] r s' c by simp
    moreover have "get_cycle_summary (db (snd (add_entry gid u parsed args s)))
                    (cycle_id c) = Inr sm"
      using sm r s' c by simp
    moreover have "is_carry_over ?b \<longleftrightarrow> like_carry (join_space args)"
      by (simp add: is_carry_over_def like_carry_entry_description)
    moreover have "sqlite_int amt \<and> utf8_encodable (entry_description args)"
      using insert_bill_frame[OF ins] by simp
    ultimately show "\<exists>c amt b. active_cycles (db s) gid = [c] \<and> parsed = Some amt
               \<and> b = \<lparr>bill_id = Suc (bills_seq (db s)), b_cycle_id = cycle_id c,
                      b_group_id = gid, b_user_id = user_id u, amount = amt,
                      description = entry_description args, created_at = clock u 0\<rparr>
               \<and> db (snd (add_entry gid u parsed args s)) =
                   (db s)\<lparr>bills := bills (db s) @ [b], bills_seq := Suc (bills_seq (db s))\<rparr>
               \<and> get_cycle_summary (db (snd (add_entry gid u parsed args s)))
                    (cycle_id c) = Inr sm
               \<and> (is_carry_over b \<longleftrightarrow> like_carry (join_space args))
               \<and> sqlite_int amt \<and> utf8_encodable (entry_description args)"
      using ac c p by blast
  }
  {
    fix c amt
    assume "authorized u" "active_cycles (db s) gid = [c]" "parsed = Some amt"
      "sqlite_int amt" "utf8_encodable (entry_description args)"
      "(\<Sum>b\<leftarrow>cycle_bills (db s) (cycle_id c). \<bar>amount b\<bar>) + \<bar>amt\<bar> < 2 ^ 63"
    with add_entry_succeeds[OF assms, of u c amt args]
    show "\<exists>sm. fst (add_entry gid u parsed args s) = Entry_added sm"
      by simp
  }
qed

text \<open>
  Claim C5, as the code has it. In a state reached by a run: when \<open>record_user\<close>
  raises for the sender, the exception leaves the handler and nothing changes. When it
  returns, an entry command of an authorized user answers \<open>NoActiveCycle\<close> when the
  group has no active cycle, and \<open>InvalidAmount\<close> when a cycle is active and either
  \<open>int(cmd)\<close> raises or the insert raises a \<open>ValueError\<close> (the stored note holds a lone
  surrogate). Whenever the command does not succeed, from whomever, the ledger tables
  are unchanged. When it succeeds it has appended exactly one entry, with the parsed
  amount and the stored note, to the active cycle, and answers the summary computed
  after the insert; the entry is ordinary when the note does not begin with the
  reserved prefix. The command succeeds for every amount that fits 64 bits, 0
  included, with a note that can be encoded, as long as the sums stay below \<open>2 ^ 63\<close>.
\<close>

theorem add_entry_outcomes:
  assumes "wf_state gid s"
  shows "(\<forall>e. record_user u s = Inl e \<longrightarrow>
            handle_command gid u (Entry parsed args) s = (Uncaught e, s))
     \<and> (\<forall>s0. record_user u s = Inr s0 \<longrightarrow> authorized u \<longrightarrow>
            active_cycles (db s) gid = [] \<longrightarrow>
            fst (handle_command gid u (Entry parsed args) s) = NoActiveCycle)
     \<and> (\<forall>s0. record_user u s = Inr s0 \<longrightarrow> authorized u \<longrightarrow>
            active_cycles (db s) gid \<noteq> [] \<longrightarrow>
            (parsed = None
             \<or> (\<exists>amt. parsed = Some amt \<and> sqlite_int amt
                   \<and> \<not> utf8_encodable (entry_description args))) \<longrightarrow>
            fst (handle_command gid u (Entry parsed args) s) = InvalidAmount)
     \<and> ((\<forall>sm. fst (handle_command gid u (Entry parsed args) s) \<noteq> Entry_added sm) \<longrightarrow>
            db (snd (handle_command gid u (Entry parsed args) s)) = db s)
     \<and> (\<forall>sm. fst (handle_command gid u (Entry parsed args) s) = Entry_added sm \<longrightarrow>
            (\<exists>c amt b. active_cycles (db s) gid = [c] \<and> parsed = Some amt
               \<and> b = \<lparr>bill_id = Suc (bills_seq (db s)), b_cycle_id = cycle_id c,
                      b_group_id = gid, b_user_id = user_id u, amount = amt,
                      description = entry_description args, created_at = clock u 0\<rparr>
               \<and> db (snd (handle_command gid u (Entry parsed args) s)) =
                   (db s)\<lparr>bills := bills (db s) @ [b], bills_seq := Suc (bills_seq (db s))\<rparr>
               \<and> get_cycle_summary (db (snd (handle_command gid u (Entry parsed args) s)))
                    (cycle_id c) = Inr sm
               \<and> (is_carry_over b \<longleftrightarrow> like_carry (join_space args))
               \<and> sqlite_int amt \<and> utf8_encodable (entry_description args)))
     \<and> (\<forall>s0 c amt. record_user u s = Inr s0 \<longrightarrow> authorized u \<longrightarrow>
            active_cycles (db s) gid = [c] \<longrightarrow> parsed = Some amt \<longrightarrow>
            sqlite_int amt \<longrightarrow> utf8_encodable (entry_description args) \<longrightarrow>
            (\<Sum>b\<leftarrow>cycle_bills (db s) (cycle_id c). \<bar>amount b\<bar>) + \<bar>amt\<bar> < 2 ^ 63 \<longrightarrow>
            (\<exists>sm. fst (handle_command gid u (Entry parsed args) s) = Entry_added sm))"
proof (cases "record_user u s")
  case (Inl e)
  from handle_command_raised[OF Inl, of gid "Entry parsed args"]
  have h: "handle_command gid u (Entry parsed args) s = (Uncaught e, s)" .
  with Inl show ?thesis by simp
next
  case (Inr s0)
  from record_user_frame[OF Inr] have f: "db s0 = db s" by simp
  from record_user_wf[OF Inr, of gid] assms have wf0: "wf_state gid s0" by simp
  from handle_command_branch[OF Inr, of gid "Entry parsed args"]
  have h: "handle_command gid u (Entry parsed args) s = add_entry gid u parsed args s0"
    by simp
  from add_entry_branch[OF wf0, of u parsed args] Inr
  show ?thesis unfolding h f by simp
qed

lemma opened_state_eq:
  "opened_state =
     \<lparr>db = \<lparr>cycles =
              [\<lparr>cycle_id = 1, c_group_id = 7, start_time = ''2025-01-01T09:00:00'',
                end_time = None, is_active = True\<rparr>],
            cycles_seq = 1, bills = [], bills_seq = 0,
            previous_balances = [], previous_balances_seq = 0\<rparr>,
      bot_data = None,
      users = [\<lparr>u_user_id = 42, u_username = [64, 111, 112]\<rparr>]\<rparr>"
  by (simp add: opened_state_def handler_defs start_defs)

theorem add_entry_outcomes_witness:
  "wf_state 7 opened_state \<and> wf_state 7 init_state \<and> authorized operator
   \<and> record_user operator opened_state = Inr opened_state
   \<and> (\<exists>s0. record_user operator init_state = Inr s0)
   \<and> record_user newcomer opened_state = Inl IntegrityError
   \<and> map cycle_id (active_cycles (db opened_state) 7) = [1]
   \<and> active_cycles (db init_state) 7 = []
   \<and> utf8_encodable (entry_description [])
   \<and> \<not> utf8_encodable (entry_description [[55296]])
   \<and> (\<exists>sm. fst (handle_command 7 operator (Entry (Some 0) []) opened_state)
          = Entry_added sm)
   \<and> fst (handle_command 7 operator (Entry None []) opened_state) = InvalidAmount
   \<and> fst (handle_command 7 operator (Entry (Some 5) [[55296]]) opened_state) = InvalidAmount
   \<and> db (snd (handle_command 7 operator (Entry (Some 5) [[55296]]) opened_state))
        = db opened_state
   \<and> fst (handle_command 7 operator (Entry (Some 5) []) init_state) = NoActiveCycle
   \<and> db (snd (handle_command 7 operator (Entry None []) opened_state)) = db opened_state
   \<and> handle_command 7 newcomer (Entry (Some 5) []) opened_state
        = (Uncaught IntegrityError, opened_state)"
proof -
  have wf: "wf_state 7 opened_state" unfolding opened_state_def by (rule reachable_wf)
  have wf0: "wf_state 7 init_state" by (rule init_wf)
  have auth: "authorized operator" by (simp add: operator_def)
  let ?c = "\<lparr>cycle_id = 1, c_group_id = 7, start_time = ''2025-01-01T09:00:00'',
                end_time = None, is_active = True\<rparr>"
  have ac: "active_cycles (db opened_state) 7 = [?c]"
    by (simp add: opened_state_eq active_cycles_def)
  have ac0: "active_cycles (db init_state) 7 = []"
    by (simp add: init_state_def init_group_db_def active_cycles_def)
  have us: "users opened_state = [\<lparr>u_user_id = 42, u_username = [64, 111, 112]\<rparr>]"
    by (simp add: opened_state_eq)
  note rec = record_user_operator(1)[OF us]
  note rec_new = record_user_operator(3)[OF us]
  have rec0: "\<exists>s0. record_user operator init_state = Inr s0"
    by (simp add: record_user_def operator_def init_state_def utf8_encodable_def)
  have enc: "utf8_encodable (entry_description [])"
    "\<not> utf8_encodable (entry_description [[55296]])"
    by (simp_all add: utf8_encodable_def entry_description_def)
  have bound: "(\<Sum>b\<leftarrow>cycle_bills (db opened_state) (cycle_id ?c). \<bar>amount b\<bar>) + \<bar>0\<bar> < 2 ^ 63"
    by (simp add: opened_state_eq cycle_bills_def)
  have z: "sqlite_int 0" "sqlite_int 5" by (simp_all add: sqlite_int_def)
  have "\<exists>sm. fst (handle_command 7 operator (Entry (Some 0) []) opened_state)
          = Entry_added sm"
    using add_entry_outcomes[OF wf, of operator "Some 0" "[]"] auth ac bound z(1) enc(1) rec
    by blast
  moreover have inv: "fst (handle_command 7 operator (Entry None []) opened_state)
      = InvalidAmount"
    using add_entry_outcomes[OF wf, of operator None "[]"] auth ac rec by simp
  moreover have sur: "fst (handle_command 7 operator (Entry (Some 5) [[55296]]) opened_state)
      = InvalidAmount"
    using add_entry_outcomes[OF wf, of operator "Some 5" "[[55296]]"] auth ac rec z(2) enc(2)
    by simp
  moreover have "db (snd (handle_command 7 operator (Entry (Some 5) [[55296]]) opened_state))
        = db opened_state"
    using add_entry_outcomes[OF wf, of operator "Some 5" "[[55296]]"] sur by simp
  moreover have "fst (handle_command 7 operator (Entry (Some 5) []) init_state)
      = NoActiveCycle"
    using add_entry_outcomes[OF wf0, of operator "Some 5" "[]"] auth ac0 rec0 by blast
  moreover have "db (snd (handle_command 7 operator (Entry None []) opened_state))
      = db opened_state"
    using add_entry_outcomes[OF wf, of operator None "[]"] inv by simp
  moreover have "handle_command 7 newcomer (Entry (Some 5) []) opened_state
        = (Uncaught IntegrityError, opened_state)"
    using add_entry_outcomes[OF wf, of newcomer "Some 5" "[]"] rec_new by simp
  ultimately show ?thesis using wf wf0 auth ac ac0 rec rec0 rec_new enc by simp
qed

text \<open>
  Claim C5 as the specification words it refuses the amount 0. The command \<open>+0\<close>
  on the freshly opened cycle is not answered with \<open>InvalidAmount\<close>: it appends an
  entry of amount 0 and answers the summary.
\<close>

theorem add_entry_zero_counterexample:
  "bills (db opened_state) = []
   \<and> fst (handle_command 7 operator (Entry (Some 0) []) opened_state) =
       Entry_added \<lparr>total_deposits = 0, deposit_count = 0, total_withdrawals = 0,
                    withdrawal_count = 0, previous_balance = 0, net_balance = 0,
                    deposits = [], withdrawals = []\<rparr>
   \<and> bills (db (snd (handle_command 7 operator (Entry (Some 0) []) opened_state))) =
       [\<lparr>bill_id = 1, b_cycle_id = 1, b_group_id = 7, b_user_id = 42, amount = 0,
         description = [32], created_at = ''2025-01-01T09:00:00''\<rparr>]"
  by (simp add: opened_state_eq handler_defs operator_def)

section \<open>Entries with the reserved prefix\<close>







text \<open>
  Claim C6 on the code: two entry commands whose notes begin with the reserved prefix
  both succeed, and the one active cycle then holds two entries that the summary and
  the import check read as carry-over.
\<close>

theorem two_tagged_entries_in_one_cycle:
  "map cycle_id (active_cycles (db two_tagged_state) 7) = [1]
   \<and> map (\<lambda>b. (b_cycle_id b, amount b, description b))
        (filter is_carry_over (bills (db two_tagged_state))) =
       [(1, 100, [91, 32467, 20313, 93, 97]), (1, 50, [91, 32467, 20313, 93, 98])]
   \<and> map_sum id previous_balance (get_cycle_summary (db two_tagged_state) 1) = Inr 150"
  by (simp add: two_tagged_state_def handler_defs start_defs)

section \<open>Undo\<close>

lemma delete_by_id_removes_one:
  assumes "bills_wf conn" "b \<in> set (bills conn)"
  shows "filter (\<lambda>x. bill_id x \<noteq> bill_id b) (bills conn) = remove1 b (bills conn)"
proof -
  have same: "bill_id x \<noteq> bill_id b \<longleftrightarrow> b \<noteq> x" if "x \<in> set (bills conn)" for x
    using bill_ids_inj[OF assms(1) that assms(2)] by auto
  have "filter (\<lambda>x. bill_id x \<noteq> bill_id b) (bills conn) = filter (\<lambda>x. b \<noteq> x) (bills conn)"
    by (rule filter_cong) (simp_all add: same)
  also have "\<dots> = removeAll b (bills conn)" by (simp add: removeAll_filter_not_eq)
  also have "\<dots> = remove1 b (bills conn)"
  proof -
    from assms(1) have "distinct (map bill_id (bills conn))"
      by (simp add: bills_wf_def strict_sorted_iff)
    then have "distinct (bills conn)" by (simp add: distinct_map)
    then show ?thesis by (simp add: distinct_remove1_removeAll)
  qed
  finally show ?thesis .
qed

text \<open>Undo in a state reached by a run, with an active cycle: the empty cycle is
  refused, and otherwise the last bill of the cycle, which has the largest key of the
  cycle, is the one entry removed.\<close>

lemma undo_empty:
  assumes "wf_state gid s" "authorized u" "active_cycles (db s) gid = [c]"
    and "cycle_bills (db s) (cycle_id c) = []"
  shows "undo_last gid u s = (EmptyLedger, s\<lparr>bot_data := Some (cycle_id c)\<rparr>)"
proof -
  from assms(1) have w: "cache_coherent gid s" "inv_cycles gid s"
    by (simp_all add: wf_state_def)
  note g = get_active_cycle_some[OF w assms(3)]
  from g(1,2) assms(2,4) show ?thesis
    by (simp add: undo_last_def order_by_bill_id_desc_def)
qed

lemma undo_nonempty:
  assumes "wf_state gid s" "authorized u" "active_cycles (db s) gid = [c]"
    and "cycle_bills (db s) (cycle_id c) = rows @ [b]"
  shows "\<exists>sm. undo_last gid u s =
        (Undone b sm, s\<lparr>db := (db s)\<lparr>bills := remove1 b (bills (db s))\<rparr>,
                        bot_data := Some (cycle_id c)\<rparr>)
      \<and> get_cycle_summary ((db s)\<lparr>bills := remove1 b (bills (db s))\<rparr>) (cycle_id c) = Inr sm
      \<and> cycle_bills ((db s)\<lparr>bills := remove1 b (bills (db s))\<rparr>) (cycle_id c) = rows"
proof -
  let ?cid = "cycle_id c"
  from assms(1) have w: "cache_coherent gid s" "inv_cycles gid s"
    and bw: "bills_wf (db s)" and so: "summaries_ok (db s)"
    by (simp_all add: wf_state_def)
  note g = get_active_cycle_some[OF w assms(3)]
  have desc: "order_by_bill_id_desc (cycle_bills (db s) ?cid) = b # rev rows"
    using order_desc_sorted[OF cycle_bills_sorted[OF bw], of ?cid] assms(4) by simp
  have "b \<in> set (cycle_bills (db s) ?cid)" using assms(4) by simp
  then have bin: "b \<in> set (bills (db s))" by (simp add: cycle_bills_def)
  note rm = delete_by_id_removes_one[OF bw bin]
  let ?conn1 = "(db s)\<lparr>bills := remove1 b (bills (db s))\<rparr>"
  from summaries_ok_delete(1,3)[OF so bw desc]
  have ok: "summaries_ok ?conn1" and rows: "cycle_bills ?conn1 ?cid = rows"
    by (simp_all add: rm)
  from ok obtain sm where sm: "get_cycle_summary ?conn1 ?cid = Inr sm"
    by (auto simp: summaries_ok_def)
  have "undo_last gid u s = (Undone b sm, s\<lparr>db := ?conn1, bot_data := Some ?cid\<rparr>)"
    using g(1,2) assms(2) desc sm
    by (simp add: undo_last_def rm)
  with sm rows show ?thesis by blast
qed

text \<open>Undo right after an insertion: the three insert paths end in the same shape.
  The undo runs in a state \<open>s1\<close> that has the tables and the cache left by the
  insertion.\<close>

lemma undo_after_insert:
  assumes "wf_state gid s" "authorized u'"
    and "fst (get_active_cycle gid s) = Some cid"
    and "insert_bill (db s) cid g uid amt d t = Inr conn1"
    and "get_cycle_summary conn1 cid = Inr sm"
    and "db s1 = conn1" "bot_data s1 = bot_data (snd (get_active_cycle gid s))"
  shows "\<exists>c b sm0 s2.
        active_cycles (db s) gid = [c]
        \<and> cycle_bills (db s1) (cycle_id c) = cycle_bills (db s) (cycle_id c) @ [b]
        \<and> get_cycle_summary (db s) (cycle_id c) = Inr sm0
        \<and> undo_last gid u' s1 = (Undone b sm0, s2)
        \<and> bills (db s2) = bills (db s) \<and> cycles (db s2) = cycles (db s)
        \<and> previous_balances (db s2) = previous_balances (db s)"
proof -
  from assms(1) have w: "cache_coherent gid s" "inv_cycles gid s"
    and bw: "bills_wf (db s)"
    by (simp_all add: wf_state_def)
  from assms(3) get_active_cycle_none[OF w(1)] obtain c cs where
    ac: "active_cycles (db s) gid = c # cs"
    by (cases "active_cycles (db s) gid") auto
  note g = get_active_cycle_some[OF w ac]
  from g assms(3) have c: "cid = cycle_id c" "cs = []" by simp_all
  let ?b = "\<lparr>bill_id = Suc (bills_seq (db s)), b_cycle_id = cid, b_group_id = g,
        b_user_id = uid, amount = amt, description = d, created_at = t\<rparr>"
  note fr = insert_bill_frame[OF assms(4)]
  have rows: "cycle_bills conn1 cid = cycle_bills (db s) cid @ [?b]"
    by (rule cycle_bills_insert[OF assms(4)])
  have wf1: "wf_state gid s1"
  proof -
    from bills_wf_insert[OF bw assms(4)] have "bills_wf conn1" .
    moreover from fr have "cycles conn1 = cycles (db s)" by simp
    moreover from summaries_ok_insert[OF _ assms(4,5)] assms(1) have "summaries_ok conn1"
      by (simp add: wf_state_def)
    ultimately have "wf_state gid ((snd (get_active_cycle gid s))\<lparr>db := conn1\<rparr>)"
      using bills_changed_wf[OF assms(1)] by simp
    with wf_state_cong[of s1 "(snd (get_active_cycle gid s))\<lparr>db := conn1\<rparr>" gid] assms(6,7)
    show ?thesis by simp
  qed
  have db1: "db s1 = conn1" using assms(6) by simp
  have ac1: "active_cycles (db s1) gid = [c]"
    using ac c fr by (simp add: db1 active_cycles_def)
  from undo_nonempty[OF wf1 assms(2) ac1, of "cycle_bills (db s) cid" ?b] rows c db1
  obtain sm0 where
    u: "undo_last gid u' s1 =
        (Undone ?b sm0, s1\<lparr>db := conn1\<lparr>bills := remove1 ?b (bills conn1)\<rparr>,
                         bot_data := Some cid\<rparr>)"
    and sm0: "get_cycle_summary (conn1\<lparr>bills := remove1 ?b (bills conn1)\<rparr>) cid = Inr sm0"
    and rows0: "cycle_bills (conn1\<lparr>bills := remove1 ?b (bills conn1)\<rparr>) cid
        = cycle_bills (db s) cid"
    by auto
  have fresh: "?b \<notin> set (bills (db s))"
    using bw by (auto simp: bills_wf_def list_all_iff)
  have restored: "remove1 ?b (bills conn1) = bills (db s)"
    using fr fresh by (simp add: remove1_append)
  from get_cycle_summary_cong[OF rows0] sm0
  have before: "get_cycle_summary (db s) cid = Inr sm0" by simp
  let ?s2 = "s1\<lparr>db := conn1\<lparr>bills := remove1 ?b (bills conn1)\<rparr>, bot_data := Some cid\<rparr>"
  have "bills (db ?s2) = bills (db s)" "cycles (db ?s2) = cycles (db s)"
    "previous_balances (db ?s2) = previous_balances (db s)"
    using restored fr by simp_all
  with ac c rows before u db1 show ?thesis by auto
qed

text \<open>The same for the command: the undo of \<open>u'\<close> is issued in the state \<open>s1\<close> the
  insertion has left, and \<open>record_user\<close> returns for \<open>u'\<close> there.\<close>

lemma undo_command_after_insert:
  assumes "wf_state gid s" "authorized u'"
    and "fst (get_active_cycle gid s) = Some cid"
    and "insert_bill (db s) cid g uid amt d t = Inr conn1"
    and "get_cycle_summary conn1 cid = Inr sm"
    and "s1 = (snd (get_active_cycle gid s))\<lparr>db := conn1\<rparr>"
    and "record_user u' s1 = Inr s0"
  shows "undo_restores gid u' s s1"
proof -
  from record_user_frame[OF assms(7)] assms(6)
  have "db s0 = conn1" "bot_data s0 = bot_data (snd (get_active_cycle gid s))"
    and same: "db s0 = db s1"
    by simp_all
  from undo_after_insert[OF assms(1-5) this(1,2)]
  show ?thesis
    unfolding undo_restores_def handle_command_branch[OF assms(7)] same by simp
qed

text \<open>
  Claim C7. In a state reached by a run, an undo by an authorized user for whom
  \<open>record_user\<close> returns, right after a successful insertion (an entry command, the
  carry-over command or the import button), answers the inserted entry and the
  summary the cycle had before the insertion, and the tables hold again what they
  held before. With an active cycle, undo on a cycle without entries answers
  \<open>EmptyLedger\<close> and changes no table; on a cycle with entries it removes exactly one
  bill, the last of the cycle, whose key is larger than that of every other bill of
  the cycle, whatever its kind. When \<open>record_user\<close> raises for the user, the exception
  leaves the handler before the undo branch and nothing changes.
\<close>

theorem undo_inverts_insertion:
  assumes "wf_state gid s" "authorized u'"
  shows "(\<forall>u parsed args sm s1 s0.
            handle_command gid u (Entry parsed args) s = (Entry_added sm, s1) \<longrightarrow>
            record_user u' s1 = Inr s0 \<longrightarrow>
            undo_restores gid u' s s1)
     \<and> (\<forall>u args parsed sm s1 s0.
            handle_command gid u (Carry_over args parsed) s = (Carry_recorded sm, s1) \<longrightarrow>
            record_user u' s1 = Inr s0 \<longrightarrow>
            undo_restores gid u' s s1)
     \<and> (\<forall>u a sm s1 s0.
            button_callback gid u (Import_balance a) s = (Imported a sm, s1) \<longrightarrow>
            record_user u' s1 = Inr s0 \<longrightarrow>
            undo_restores gid u' s s1)
     \<and> (\<forall>c s0. record_user u' s = Inr s0 \<longrightarrow>
            active_cycles (db s) gid = [c] \<longrightarrow> cycle_bills (db s) (cycle_id c) = [] \<longrightarrow>
            fst (handle_command gid u' Undo s) = EmptyLedger
            \<and> db (snd (handle_command gid u' Undo s)) = db s)
     \<and> (\<forall>c rows b s0. record_user u' s = Inr s0 \<longrightarrow>
            active_cycles (db s) gid = [c] \<longrightarrow>
            cycle_bills (db s) (cycle_id c) = rows @ [b] \<longrightarrow>
            (\<exists>sm. fst (handle_command gid u' Undo s) = Undone b sm
               \<and> get_cycle_summary (db (snd (handle_command gid u' Undo s))) (cycle_id c)
                   = Inr sm)
            \<and> db (snd (handle_command gid u' Undo s))
                = (db s)\<lparr>bills := remove1 b (bills (db s))\<rparr>
            \<and> length (bills (db (snd (handle_command gid u' Undo s)))) + 1
                = length (bills (db s))
            \<and> cycle_bills (db (snd (handle_command gid u' Undo s))) (cycle_id c) = rows
            \<and> (\<forall>x\<in>set rows. bill_id x < bill_id b))
     \<and> (\<forall>e. record_user u' s = Inl e \<longrightarrow>
            handle_command gid u' Undo s = (Uncaught e, s))"
proof (intro conjI allI impI)
  fix u parsed args sm s1 s0
  assume ok: "handle_command gid u (Entry parsed args) s = (Entry_added sm, s1)"
    and rec: "record_user u' s1 = Inr s0"
  from ok obtain sa where pre: "record_user u s = Inr sa"
    and r: "add_entry gid u parsed args sa = (Entry_added sm, s1)"
    by (cases "record_user u s") (simp_all add: handle_command_def)
  from record_user_frame[OF pre] have f: "db sa = db s" by simp
  from record_user_wf[OF pre, of gid] assms(1) have wfa: "wf_state gid sa" by simp
  from add_entry_result[OF r] undo_command_after_insert[OF wfa assms(2) _ _ _ _ rec]
  have "undo_restores gid u' sa s1" by auto
  then show "undo_restores gid u' s s1" by (simp add: undo_restores_def f)
next
  fix u args parsed sm s1 s0
  assume ok: "handle_command gid u (Carry_over args parsed) s = (Carry_recorded sm, s1)"
    and rec: "record_user u' s1 = Inr s0"
  from ok obtain sa where pre: "record_user u s = Inr sa"
    and r: "record_carry_over gid u args parsed sa = (Carry_recorded sm, s1)"
    by (cases "record_user u s") (simp_all add: handle_command_def)
  from record_user_frame[OF pre] have f: "db sa = db s" by simp
  from record_user_wf[OF pre, of gid] assms(1) have wfa: "wf_state gid sa" by simp
  from record_carry_over_result[OF r] undo_command_after_insert[OF wfa assms(2) _ _ _ _ rec]
  have "undo_restores gid u' sa s1" by auto
  then show "undo_restores gid u' s s1" by (simp add: undo_restores_def f)
next
  fix u a sm s1 s0
  assume "button_callback gid u (Import_balance a) s = (Imported a sm, s1)"
    and rec: "record_user u' s1 = Inr s0"
  then have "import_balance gid u a s = (Imported a sm, s1)" by simp
  from import_balance_result[OF this] show "undo_restores gid u' s s1"
    using undo_command_after_insert[OF assms _ _ _ _ rec] by auto
next
  fix c s0
  assume rec: "record_user u' s = Inr s0"
    and "active_cycles (db s) gid = [c]" "cycle_bills (db s) (cycle_id c) = []"
  moreover from record_user_frame[OF rec] have f: "db s0 = db s" by simp
  moreover from record_user_wf[OF rec, of gid] assms(1) have "wf_state gid s0" by simp
  ultimately have "undo_last gid u' s0 = (EmptyLedger, s0\<lparr>bot_data := Some (cycle_id c)\<rparr>)"
    using undo_empty[of gid s0 u' c] assms(2) by simp
  with f show "fst (handle_command gid u' Undo s) = EmptyLedger"
    and "db (snd (handle_command gid u' Undo s)) = db s"
    by (simp_all add: handle_command_branch[OF rec])
next
  fix c rows b s0
  assume rec: "record_user u' s = Inr s0"
    and ac: "active_cycles (db s) gid = [c]"
    and rows: "cycle_bills (db s) (cycle_id c) = rows @ [b]"
  from record_user_frame[OF rec] have f: "db s0 = db s" by simp
  from record_user_wf[OF rec, of gid] assms(1) have wf0: "wf_state gid s0" by simp
  note h = handle_command_branch[OF rec, of gid Undo]
  from undo_nonempty[OF wf0 assms(2), of c rows b] ac rows f obtain sm where
    u: "undo_last gid u' s0 =
        (Undone b sm, s0\<lparr>db := (db s)\<lparr>bills := remove1 b (bills (db s))\<rparr>,
                        bot_data := Some (cycle_id c)\<rparr>)"
    and sm: "get_cycle_summary ((db s)\<lparr>bills := remove1 b (bills (db s))\<rparr>) (cycle_id c)
        = Inr sm"
    and r: "cycle_bills ((db s)\<lparr>bills := remove1 b (bills (db s))\<rparr>) (cycle_id c) = rows"
    by auto
  from u sm show "\<exists>sm. fst (handle_command gid u' Undo s) = Undone b sm
      \<and> get_cycle_summary (db (snd (handle_command gid u' Undo s))) (cycle_id c) = Inr sm"
    by (simp add: h)
  from u show "db (snd (handle_command gid u' Undo s))
      = (db s)\<lparr>bills := remove1 b (bills (db s))\<rparr>"
    by (simp add: h)
  have "b \<in> set (cycle_bills (db s) (cycle_id c))" using rows by simp
  then have "b \<in> set (bills (db s))" by (simp add: cycle_bills_def)
  then have "0 < length (bills (db s))" by (cases "bills (db s)") auto
  with u \<open>b \<in> set (bills (db s))\<close>
  show "length (bills (db (snd (handle_command gid u' Undo s)))) + 1 = length (bills (db s))"
    by (simp add: h length_remove1)
  from u r show "cycle_bills (db (snd (handle_command gid u' Undo s))) (cycle_id c) = rows"
    by (simp add: h)
  from assms(1) have "bills_wf (db s)" by (simp add: wf_state_def)
  from cycle_bills_sorted[OF this, of "cycle_id c"] rows
  show "\<forall>x\<in>set rows. bill_id x < bill_id b" by (simp add: sorted_wrt_append)
next
  fix e
  assume "record_user u' s = Inl e"
  then show "handle_command gid u' Undo s = (Uncaught e, s)"
    by (rule handle_command_raised)
qed


theorem undo_inverts_insertion_witness:
  "wf_state 7 ledger_a \<and> wf_state 7 opened_state \<and> authorized operator
   \<and> record_user operator opened_state = Inr opened_state
   \<and> (\<exists>sm s1 b sm0 s2.
         handle_command 7 operator (Entry (Some 50) []) ledger_a = (Entry_added sm, s1)
         \<and> record_user operator s1 = Inr s1
         \<and> net_balance sm = 950
         \<and> get_cycle_summary (db ledger_a) 1 = Inr sm0 \<and> net_balance sm0 = 900
         \<and> handle_command 7 operator Undo s1 = (Undone b sm0, s2)
         \<and> amount b = 50
         \<and> bills (db s2) = bills (db ledger_a))
   \<and> fst (handle_command 7 operator Undo opened_state) = EmptyLedger
   \<and> db (snd (handle_command 7 operator Undo opened_state)) = db opened_state
   \<and> authorized newcomer
   \<and> handle_command 7 newcomer Undo opened_state = (Uncaught IntegrityError, opened_state)"
proof -
  have wf: "wf_state 7 ledger_a" unfolding ledger_a_def by (rule reachable_wf)
  have wfo: "wf_state 7 opened_state" unfolding opened_state_def by (rule reachable_wf)
  have auth: "authorized operator" by (simp add: operator_def)
  have auth_new: "authorized newcomer" by (simp add: newcomer_def operator_def)
  have uso: "users opened_state = [\<lparr>u_user_id = 42, u_username = [64, 111, 112]\<rparr>]"
    by (simp add: opened_state_eq)
  note reco = record_user_operator(1)[OF uso] record_user_operator(3)[OF uso]
  let ?c = "\<lparr>cycle_id = 1, c_group_id = 7, start_time = ''2025-01-01T09:00:00'',
                end_time = None, is_active = True\<rparr>"
  have ac: "active_cycles (db ledger_a) 7 = [?c]"
    by (simp add: ledger_a_eq active_cycles_def)
  have aco: "active_cycles (db opened_state) 7 = [?c]"
    by (simp add: opened_state_eq active_cycles_def)
  have empty: "cycle_bills (db opened_state) (cycle_id ?c) = []"
    by (simp add: opened_state_eq cycle_bills_def)
  obtain sm s1 where
    add: "handle_command 7 operator (Entry (Some 50) []) ledger_a = (Entry_added sm, s1)"
    and net: "net_balance sm = 950"
    and rows1: "map amount (cycle_bills (db s1) 1) = [1000, - 300, 200, 50]"
    and us1: "users s1 = [\<lparr>u_user_id = 42, u_username = [64, 111, 112]\<rparr>]"
    by (simp add: ledger_a_eq handler_defs operator_def)
  note rec1 = record_user_operator(1)[OF us1]
  from undo_inverts_insertion[OF wf auth, THEN conjunct1, rule_format, OF add rec1]
  have "undo_restores 7 operator ledger_a s1" .
  then obtain c b sm0 s2 where
    c: "active_cycles (db ledger_a) 7 = [c]"
    and rows: "cycle_bills (db s1) (cycle_id c) = cycle_bills (db ledger_a) (cycle_id c) @ [b]"
    and sm0: "get_cycle_summary (db ledger_a) (cycle_id c) = Inr sm0"
    and undo: "handle_command 7 operator Undo s1 = (Undone b sm0, s2)"
    and same: "bills (db s2) = bills (db ledger_a)"
    unfolding undo_restores_def by blast
  from c ac have "c = ?c" by simp
  then have cid: "cycle_id c = 1" by simp
  from sm0 cid ledger_a_summary have n0: "net_balance sm0 = 900" by simp
  from rows rows1 cid have "amount b = 50" by auto
  with add net sm0 cid n0 undo same rec1 have first:
    "\<exists>sm s1 b sm0 s2.
         handle_command 7 operator (Entry (Some 50) []) ledger_a = (Entry_added sm, s1)
         \<and> record_user operator s1 = Inr s1
         \<and> net_balance sm = 950
         \<and> get_cycle_summary (db ledger_a) 1 = Inr sm0 \<and> net_balance sm0 = 900
         \<and> handle_command 7 operator Undo s1 = (Undone b sm0, s2)
         \<and> amount b = 50
         \<and> bills (db s2) = bills (db ledger_a)"
    by (metis One_nat_def)
  from undo_inverts_insertion[OF wfo auth, THEN conjunct2, THEN conjunct2, THEN conjunct2,
      THEN conjunct1, rule_format, OF reco(1) aco empty]
  have "fst (handle_command 7 operator Undo opened_state) = EmptyLedger
   \<and> db (snd (handle_command 7 operator Undo opened_state)) = db opened_state" .
  moreover from undo_inverts_insertion[OF wfo auth_new, THEN conjunct2, THEN conjunct2,
      THEN conjunct2, THEN conjunct2, THEN conjunct2, rule_format, OF reco(2)]
  have "handle_command 7 newcomer Undo opened_state = (Uncaught IntegrityError, opened_state)" .
  ultimately show ?thesis using wf wfo auth auth_new first reco(1) by blast
qed

section \<open>The pages of the details view\<close>

lemma ceiling_tenth: "\<lceil>real n / 10\<rceil> = (int n + 9) div 10"
proof -
  have "\<lceil>real n / 10\<rceil> = \<lceil>real_of_int (int n) / real_of_int 10\<rceil>" by simp
  also have "\<dots> = - (- int n div 10)" by (rule ceiling_divide_eq_div)
  also have "\<dots> = (int n + 9) div 10" by presburger
  finally show ?thesis .
qed

lemma newest_first:
  "sorted_wrt (\<lambda>a b. bill_id b \<le> bill_id a) (order_by_bill_id_desc rows)"
proof -
  have "sorted (map bill_id (sort_key bill_id rows))" by (rule sorted_sort_key)
  then have "sorted_wrt (\<lambda>a b. bill_id a \<le> bill_id b) (sort_key bill_id rows)"
    by (simp add: sorted_wrt_map)
  then show ?thesis by (simp add: order_by_bill_id_desc_def sorted_wrt_rev)
qed

lemma length_order_desc [simp]: "length (order_by_bill_id_desc rows) = length rows"
  by (simp add: order_by_bill_id_desc_def)

text \<open>
  Claim C8, as the code has it. For a cycle with \<open>n\<close> entries and a page number from
  1 on, a computed details view has \<open>total_pages = max 1 (ceil (n / 10))\<close> and its
  page holds the entries \<open>10 * (page - 1)\<close> to \<open>10 * page - 1\<close> of the cycle's entries
  in descending key order; a page beyond the last is empty, with the same
  \<open>total_pages\<close>. With 25 entries there are 3 pages, page 3 holds 5 entries and page 4
  none. The view is computed whenever the summary of the cycle is and the cycle id and
  the offset \<open>10 * (page - 1)\<close> are 64-bit integers; for a larger offset the query
  raises \<open>OverflowError\<close> and there is no view.
\<close>

theorem details_pagination:
  assumes "1 \<le> page"
  shows "(\<forall>d. details_page conn cid page = Inr d \<longrightarrow>
            total_items d = length (cycle_bills conn cid)
            \<and> total_pages d = max 1 \<lceil>real (total_items d) / 10\<rceil>
            \<and> total_pages d = max 1 ((int (total_items d) + 9) div 10)
            \<and> page_bills d =
                map (\<lambda>b. (amount b, description b, created_at b))
                  (take 10 (drop (10 * nat (page - 1))
                     (order_by_bill_id_desc (cycle_bills conn cid))))
            \<and> sorted_wrt (\<lambda>a b. bill_id b \<le> bill_id a)
                 (order_by_bill_id_desc (cycle_bills conn cid))
            \<and> length (page_bills d) = min 10 (total_items d - 10 * nat (page - 1))
            \<and> (total_pages d < page \<longrightarrow> page_bills d = [])
            \<and> (total_items d = 25 \<longrightarrow>
                 total_pages d = 3 \<and> (page = 3 \<longrightarrow> length (page_bills d) = 5)
                 \<and> (page = 4 \<longrightarrow> length (page_bills d) = 0)))
     \<and> ((\<exists>sm. get_cycle_summary conn cid = Inr sm) \<longrightarrow> sqlite_int (int cid) \<longrightarrow>
          sqlite_int ((page - 1) * 10) \<longrightarrow>
          (\<exists>d. details_page conn cid page = Inr d))
     \<and> ((\<exists>sm. get_cycle_summary conn cid = Inr sm) \<longrightarrow> sqlite_int (int cid) \<longrightarrow>
          \<not> sqlite_int ((page - 1) * 10) \<longrightarrow>
          details_page conn cid page = Inl OverflowError)"
proof (intro conjI allI impI)
  fix d
  assume d: "details_page conn cid page = Inr d"
  let ?rows = "cycle_bills conn cid"
  from d obtain sm where sm: "get_cycle_summary conn cid = Inr sm"
    and inr: "sqlite_int (int cid)" "sqlite_int ((page - 1) * 10)"
    by (auto simp: details_page_def Let_def items_per_page_def split: sum.splits if_splits)
  have off: "nat (page * 10 - 10) = 10 * nat (page - 1)"
    using assms by linarith
  from d sm inr show n: "total_items d = length ?rows"
    by (auto simp: details_page_def Let_def items_per_page_def)
  from d sm inr have tp: "total_pages d =
      (if length ?rows > 0 then \<lceil>real (length ?rows) / 10\<rceil> else 1)"
    by (auto simp: details_page_def Let_def items_per_page_def)
  have ge: "1 \<le> \<lceil>real (length ?rows) / 10\<rceil>" if "length ?rows > 0"
  proof -
    from that have "0 < real (length ?rows) / 10" by simp
    then show ?thesis by (simp add: le_ceiling_iff)
  qed
  from tp ge show tp1: "total_pages d = max 1 \<lceil>real (total_items d) / 10\<rceil>"
    by (auto simp: n)
  then show tp2: "total_pages d = max 1 ((int (total_items d) + 9) div 10)"
    by (simp add: ceiling_tenth)
  from d sm inr show pb: "page_bills d =
      map (\<lambda>b. (amount b, description b, created_at b))
        (take 10 (drop (10 * nat (page - 1)) (order_by_bill_id_desc ?rows)))"
    by (auto simp: details_page_def Let_def items_per_page_def sql_limit_offset_def off)
  show "sorted_wrt (\<lambda>a b. bill_id b \<le> bill_id a) (order_by_bill_id_desc ?rows)"
    by (rule newest_first)
  show len: "length (page_bills d) = min 10 (total_items d - 10 * nat (page - 1))"
    by (simp add: pb n min.commute)
  {
    assume "total_pages d < page"
    with tp2 have q: "(int (total_items d) + 9) div 10 < page" by simp
    have "(int (total_items d) + 9) div 10 = int ((total_items d + 9) div 10)"
      by (simp add: zdiv_int)
    with q have "(total_items d + 9) div 10 < nat page" by linarith
    then have "total_items d + 9 < nat page * 10" by (simp add: div_less_iff_less_mult)
    moreover have "nat (page - 1) = nat page - 1" using assms by linarith
    ultimately have "total_items d \<le> 10 * nat (page - 1)" by linarith
    with len show "page_bills d = []" by simp
  }
  {
    assume "total_items d = 25"
    with tp2 show "total_pages d = 3" by simp
  }
  {
    assume "total_items d = 25" "page = 3"
    with len show "length (page_bills d) = 5" by simp
  }
  {
    assume "total_items d = 25" "page = 4"
    with len show "length (page_bills d) = 0" by simp
  }
next
  assume "\<exists>sm. get_cycle_summary conn cid = Inr sm" "sqlite_int (int cid)"
    "sqlite_int ((page - 1) * 10)"
  then show "\<exists>d. details_page conn cid page = Inr d"
    by (auto simp: details_page_def Let_def items_per_page_def)
next
  assume "\<exists>sm. get_cycle_summary conn cid = Inr sm" "sqlite_int (int cid)"
    "\<not> sqlite_int ((page - 1) * 10)"
  then show "details_page conn cid page = Inl OverflowError"
    by (auto simp: details_page_def Let_def items_per_page_def)
qed

lemma ledger_25_rows: "cycle_bills ledger_25 1 = map bill_no [1..<26]"
  by (simp add: cycle_bills_def ledger_25_def bill_no_def filter_map comp_def)

lemma ledger_25_bound: "(\<Sum>b\<leftarrow>cycle_bills ledger_25 1. \<bar>amount b\<bar>) < 2 ^ 63"
proof -
  have "(\<Sum>b\<leftarrow>map bill_no [1..<26]. \<bar>amount b\<bar>) \<le> (\<Sum>i\<leftarrow>[1..<26]. 26)"
    unfolding map_map by (rule sum_list_mono) (simp add: bill_no_def)
  also have "\<dots> = 650" by (simp add: sum_list_triv)
  finally have "(\<Sum>b\<leftarrow>map bill_no [1..<26]. \<bar>amount b\<bar>) \<le> 650" .
  then show ?thesis unfolding ledger_25_rows by simp
qed

theorem details_pagination_witness:
  "length (cycle_bills ledger_25 1) = 25
   \<and> sqlite_int (int 1) \<and> sqlite_int ((3 - 1) * 10) \<and> sqlite_int ((4 - 1) * 10)
   \<and> (\<exists>d3 d4. details_page ledger_25 1 3 = Inr d3 \<and> details_page ledger_25 1 4 = Inr d4
        \<and> total_pages d3 = 3 \<and> length (page_bills d3) = 5
        \<and> total_pages d4 = 3 \<and> page_bills d4 = [])"
proof -
  have n: "length (cycle_bills ledger_25 1) = 25" unfolding ledger_25_rows by simp
  from summary_returns[OF ledger_25_bound] obtain sm where
    sm: "get_cycle_summary ledger_25 1 = Inr sm" by blast
  have p3: "(1 :: int) \<le> 3" and p4: "(1 :: int) \<le> 4" by simp_all
  have fits: "sqlite_int (int 1)" "sqlite_int ((3 - 1) * 10)" "sqlite_int ((4 - 1) * 10)"
    by (simp_all add: sqlite_int_def)
  from details_pagination[OF p3, of ledger_25 1] sm fits obtain d3 where
    d3: "details_page ledger_25 1 3 = Inr d3" by blast
  from details_pagination[OF p4, of ledger_25 1] sm fits obtain d4 where
    d4: "details_page ledger_25 1 4 = Inr d4" by blast
  from details_pagination[OF p3, of ledger_25 1] d3 n
  have r3: "total_pages d3 = 3 \<and> length (page_bills d3) = 5" by simp
  from details_pagination[OF p4, of ledger_25 1] d4 n
  have r4: "total_pages d4 = 3 \<and> page_bills d4 = []" by simp
  from n d3 d4 r3 r4 fits show ?thesis by blast
qed

text \<open>
  Claim C8 as the specification words it gives every page beyond the range an empty
  slice. For the cycle with 25 entries and the page number \<open>10 ^ 18\<close> the offset is
  no 64-bit integer: the query raises, the callback logs the exception and renders
  nothing, so there is neither a slice nor a \<open>total_pages\<close>.
\<close>

theorem details_huge_page_counterexample:
  "length (cycle_bills ledger_25 1) = 25
   \<and> details_page ledger_25 1 1000000000000000000 = Inl OverflowError
   \<and> button_callback 7 operator (Details 1 1000000000000000000)
        \<lparr>db = ledger_25, bot_data = Some 1, users = []\<rparr>
       = (Details_error OverflowError, \<lparr>db = ledger_25, bot_data = Some 1, users = []\<rparr>)"
proof -
  have n: "length (cycle_bills ledger_25 1) = 25" unfolding ledger_25_rows by simp
  from summary_returns[OF ledger_25_bound] obtain sm where
    sm: "get_cycle_summary ledger_25 1 = Inr sm" by blast
  have "details_page ledger_25 1 1000000000000000000 = Inl OverflowError"
    using sm by (simp add: details_page_def Let_def items_per_page_def sqlite_int_def)
  with n show ?thesis by simp
qed

end
